theory Spec2Isabelle
  imports Main "HOL-Library.Word"
begin

unbundle bit_operations_syntax

section \<open>Data model of \<open>concurrent/cond.go\<close>\<close>

text \<open>
  Go's \<open>uint64\<close> and \<open>int64\<close> (\<open>time.Duration\<close>, \<open>UnixNano\<close>) are 64-bit words:
  \<open>+\<close> and \<open>-\<close> wrap around, \<open>unat\<close> reads a counter, \<open>sint\<close> reads a duration.
  Channels, lockers and goroutines are named by natural numbers.
\<close>

type_synonym uint64 = "64 word"
type_synonym int64 = "64 word"
type_synonym chan = nat
type_synonym tid = nat

text \<open>The ways the program can die: the two explicit \<open>panic\<close> calls of the source and the
  run-time panics of the channel and mutex operations it uses.\<close>

datatype panic =
    TooManyWaiters
  | RemoveWaiterUnderflow
  | CloseOfClosedChannel
  | SendOnClosedChannel
  | UnlockOfUnlockedMutex

text \<open>\<open>type TimeoutCond struct { L sync.Locker; signal chan int; hasWaiters uint64 }\<close>.
  \<open>L\<close> and \<open>signal\<close> are references: to the caller's locker and to a channel of the heap.\<close>

record TimeoutCond =
  L :: nat
  signal :: chan
  hasWaiters :: uint64

text \<open>The channels made so far are \<open>0 ..< nchan\<close>; \<open>closed\<close> holds those already closed.
  Every channel of the program is made by \<open>make(chan int, 0)\<close>: unbuffered, so a channel
  has no other state.\<close>

record heap =
  closed :: "chan set"
  nchan :: nat

definition empty_heap :: heap where
  "empty_heap = \<lparr>closed = {}, nchan = 0\<rparr>"

definition make_chan :: "heap \<Rightarrow> chan \<times> heap" where
  "make_chan h = (nchan h, h\<lparr>nchan := Suc (nchan h)\<rparr>)"

definition close_chan :: "chan \<Rightarrow> heap \<Rightarrow> panic + heap" where
  "close_chan ch h =
     (if ch \<in> closed h then Inl CloseOfClosedChannel
      else Inr (h\<lparr>closed := insert ch (closed h)\<rparr>))"

section \<open>The waiter counter\<close>

definition MaxUint64 :: uint64 where
  "MaxUint64 = 18446744073709551615"

definition NewTimeoutCond :: "nat \<Rightarrow> heap \<Rightarrow> TimeoutCond \<times> heap" where
  "NewTimeoutCond l h =
     (let (ch, h') = make_chan h
      in (\<lparr>L = l, signal = ch, hasWaiters = 0\<rparr>, h'))"

definition addWaiter :: "TimeoutCond \<Rightarrow> panic + TimeoutCond" where
  "addWaiter cond =
     (let v = hasWaiters cond + 1
      in if v = 0 then Inl TooManyWaiters else Inr (cond\<lparr>hasWaiters := v\<rparr>))"

definition removeWaiter :: "TimeoutCond \<Rightarrow> panic + TimeoutCond" where
  "removeWaiter cond =
     (let v = hasWaiters cond + NOT 0
      in if v = MaxUint64 then Inl RemoveWaiterUnderflow else Inr (cond\<lparr>hasWaiters := v\<rparr>))"

definition HasWaiters :: "TimeoutCond \<Rightarrow> bool" where
  "HasWaiters cond = (hasWaiters cond > 0)"

text \<open>A sequence of wait entries (\<open>addWaiter\<close>) and exits (\<open>removeWaiter\<close>), run in order and
  stopped by the first panic.\<close>

datatype wop = Enter | Exit

fun apply_wops :: "wop list \<Rightarrow> TimeoutCond \<Rightarrow> panic + TimeoutCond" where
  "apply_wops [] cond = Inr cond"
| "apply_wops (Enter # ops) cond =
     (case addWaiter cond of Inl p \<Rightarrow> Inl p | Inr cond' \<Rightarrow> apply_wops ops cond')"
| "apply_wops (Exit # ops) cond =
     (case removeWaiter cond of Inl p \<Rightarrow> Inl p | Inr cond' \<Rightarrow> apply_wops ops cond')"

text \<open>Correct pairing: no prefix of the sequence has more exits than entries. \<open>depth\<close> is the
  number of waits in progress before the sequence starts.\<close>

fun paired :: "nat \<Rightarrow> wop list \<Rightarrow> bool" where
  "paired depth [] = True"
| "paired depth (Enter # ops) = paired (Suc depth) ops"
| "paired depth (Exit # ops) = (0 < depth \<and> paired (depth - 1) ops)"

definition entries :: "wop list \<Rightarrow> nat" where
  "entries ops = length (filter (\<lambda>x. x = Enter) ops)"

definition exits :: "wop list \<Rightarrow> nat" where
  "exits ops = length (filter (\<lambda>x. x = Exit) ops)"

section \<open>Goroutines calling the primitive\<close>

text \<open>
  The operations of \<open>cond.go\<close> block and interleave, so each one is split at its atomic
  statements. A goroutine is a program counter naming the statement it executes next,
  together with the local variables of the call (\<open>timeout\<close>, \<open>ch\<close>, \<open>begin\<close>, \<open>ok\<close> and the
  value handed to \<open>return\<close>), and the trace of what its current call has done so far.
\<close>

datatype call =
    CLock
  | CUnlock
  | CWait
  | CWaitWithTimeout int64
  | CSignal
  | CInterrupt
  | CHasWaiters

datatype ret = RUnit | RBool bool | RDur int64 bool

datatype event =
    EvCall call
  | EvAddWaiter
  | EvCapture chan
  | EvUnlock
  | EvLock
  | EvNow int64
  | EvRecv chan bool
  | EvTimeout
  | EvRemoveWaiter
  | EvSend chan tid
  | EvDefault chan
  | EvClose chan
  | EvMake chan
  | EvReturn ret

text \<open>
  \<open>EvRecv ch ok\<close> is the receive \<open>_, ok := <-ch\<close>: \<open>ok\<close> is true when a value sent by
  \<open>Signal\<close> was delivered (post-one) and false when the channel was found closed
  (close-all). \<open>EvTimeout\<close> is the receive from \<open>time.After(timeout)\<close>.
\<close>

datatype pc =
    Idle
  | Wait_addWaiter
  | Wait_capture
  | Wait_Unlock chan
  | Wait_recv chan
  | Wait_parked chan
  | Wait_Lock chan bool
  | Wait_removeWaiter chan bool
  | WT_addWaiter int64
  | WT_capture int64
  | WT_Unlock int64 chan
  | WT_begin int64 chan
  | WT_select int64 chan int64
  | WT_parked int64 chan int64
  | WT_end int64 chan int64 bool
  | WT_Lock int64 chan int64 "int64 \<times> bool"
  | WT_removeWaiter int64 chan int64 "int64 \<times> bool"
  | Signal_load
  | Signal_select chan
  | Interrupt_Lock
  | Interrupt_close
  | Interrupt_make
  | Interrupt_Unlock

record thread =
  pc :: pc
  trace :: "event list"

text \<open>
  The whole program: the one \<open>TimeoutCond\<close>, the channels, the locker \<open>cond.L\<close> refers to,
  the wall clock read by \<open>time.Now().UnixNano()\<close>, the goroutines, and the panic that
  killed the process, if any. The locker is a mutex as \<open>sync.Mutex\<close> is: \<open>Lock\<close> blocks
  while it is held, \<open>Unlock\<close> succeeds for any goroutine while it is held and is fatal
  when it is not. \<open>holder\<close> is \<open>None\<close> when the mutex is free and names the goroutine that
  locked it otherwise; the name is only used to say what callers are expected to do.
\<close>

record config =
  tcond :: TimeoutCond
  heap :: heap
  holder :: "tid option"
  clock :: int64
  threads :: "thread list"
  crashed :: "panic option"

definition init :: "nat \<Rightarrow> nat \<Rightarrow> int64 \<Rightarrow> config" where
  "init l n now =
     (let (cnd, h) = NewTimeoutCond l empty_heap
      in \<lparr>tcond = cnd, heap = h, holder = None, clock = now,
          threads = replicate n \<lparr>pc = Idle, trace = []\<rparr>, crashed = None\<rparr>)"

definition enter :: "tid \<Rightarrow> pc \<Rightarrow> event list \<Rightarrow> config \<Rightarrow> config" where
  "enter t p evs c = c\<lparr>threads := (threads c)[t := \<lparr>pc = p, trace = evs\<rparr>]\<rparr>"

definition goto :: "tid \<Rightarrow> pc \<Rightarrow> event list \<Rightarrow> config \<Rightarrow> config" where
  "goto t p evs c =
     c\<lparr>threads := (threads c)[t := \<lparr>pc = p, trace = trace (threads c ! t) @ evs\<rparr>]\<rparr>"

definition die :: "panic \<Rightarrow> config \<Rightarrow> config" where
  "die p c = c\<lparr>crashed := Some p\<rparr>"

text \<open>The goroutines blocked in a receive on \<open>ch\<close>: only to them can an unbuffered send
  hand its value.\<close>

fun parked_on :: "chan \<Rightarrow> pc \<Rightarrow> bool" where
  "parked_on ch (Wait_parked ch') = (ch' = ch)"
| "parked_on ch (WT_parked d ch' begin_t) = (ch' = ch)"
| "parked_on ch _ = False"

definition has_receiver :: "chan \<Rightarrow> config \<Rightarrow> bool" where
  "has_receiver ch c = list_ex (\<lambda>th. parked_on ch (pc th)) (threads c)"

text \<open>A caller starts an operation. \<open>CLock\<close> and \<open>CUnlock\<close> are the caller's own
  \<open>cond.L.Lock()\<close> and \<open>cond.L.Unlock()\<close> around its calls; \<open>HasWaiters\<close> is one atomic load.\<close>

fun call_step :: "tid \<Rightarrow> call \<Rightarrow> config \<Rightarrow> config option" where
  "call_step t CLock c =
     (case holder c of
        None \<Rightarrow> Some (enter t Idle [EvCall CLock, EvLock, EvReturn RUnit] (c\<lparr>holder := Some t\<rparr>))
      | Some _ \<Rightarrow> None)"
| "call_step t CUnlock c =
     (case holder c of
        None \<Rightarrow> Some (die UnlockOfUnlockedMutex c)
      | Some _ \<Rightarrow> Some (enter t Idle [EvCall CUnlock, EvUnlock, EvReturn RUnit] (c\<lparr>holder := None\<rparr>)))"
| "call_step t CWait c = Some (enter t Wait_addWaiter [EvCall CWait] c)"
| "call_step t (CWaitWithTimeout timeout) c =
     Some (enter t (WT_addWaiter timeout) [EvCall (CWaitWithTimeout timeout)] c)"
| "call_step t CSignal c = Some (enter t Signal_load [EvCall CSignal] c)"
| "call_step t CInterrupt c = Some (enter t Interrupt_Lock [EvCall CInterrupt] c)"
| "call_step t CHasWaiters c =
     Some (enter t Idle [EvCall CHasWaiters, EvReturn (RBool (HasWaiters (tcond c)))] c)"

text \<open>
  One statement of goroutine \<open>t\<close>; \<open>None\<close> when the statement blocks. The deferred calls of
  \<open>Wait\<close> and \<open>WaitWithTimeout\<close> run after the \<open>return\<close> statement has computed its value and
  in the reverse of the order in which they were deferred: \<open>cond.L.Lock()\<close>, deferred last,
  runs first, then \<open>cond.removeWaiter()\<close>. A receive first looks at the channel: closed, it
  completes with \<open>ok = false\<close>; open, the goroutine parks until a sender hands it a value
  (\<open>send_step\<close>) or the channel is closed.
\<close>

fun run_step :: "tid \<Rightarrow> pc \<Rightarrow> config \<Rightarrow> config option" where
  "run_step t Idle c = None"
| "run_step t Wait_addWaiter c =
     (case addWaiter (tcond c) of
        Inl p \<Rightarrow> Some (die p c)
      | Inr cond' \<Rightarrow> Some (goto t Wait_capture [EvAddWaiter] (c\<lparr>tcond := cond'\<rparr>)))"
| "run_step t Wait_capture c =
     (let ch = signal (tcond c) in Some (goto t (Wait_Unlock ch) [EvCapture ch] c))"
| "run_step t (Wait_Unlock ch) c =
     (case holder c of
        None \<Rightarrow> Some (die UnlockOfUnlockedMutex c)
      | Some _ \<Rightarrow> Some (goto t (Wait_recv ch) [EvUnlock] (c\<lparr>holder := None\<rparr>)))"
| "run_step t (Wait_recv ch) c =
     (if ch \<in> closed (heap c)
      then (let ok = False in Some (goto t (Wait_Lock ch (\<not> ok)) [EvRecv ch ok] c))
      else Some (goto t (Wait_parked ch) [] c))"
| "run_step t (Wait_parked ch) c =
     (if ch \<in> closed (heap c)
      then (let ok = False in Some (goto t (Wait_Lock ch (\<not> ok)) [EvRecv ch ok] c))
      else None)"
| "run_step t (Wait_Lock ch r) c =
     (case holder c of
        None \<Rightarrow> Some (goto t (Wait_removeWaiter ch r) [EvLock] (c\<lparr>holder := Some t\<rparr>))
      | Some _ \<Rightarrow> None)"
| "run_step t (Wait_removeWaiter ch r) c =
     (case removeWaiter (tcond c) of
        Inl p \<Rightarrow> Some (die p c)
      | Inr cond' \<Rightarrow>
          Some (goto t Idle [EvRemoveWaiter, EvReturn (RBool r)] (c\<lparr>tcond := cond'\<rparr>)))"
| "run_step t (WT_addWaiter timeout) c =
     (case addWaiter (tcond c) of
        Inl p \<Rightarrow> Some (die p c)
      | Inr cond' \<Rightarrow> Some (goto t (WT_capture timeout) [EvAddWaiter] (c\<lparr>tcond := cond'\<rparr>)))"
| "run_step t (WT_capture timeout) c =
     (let ch = signal (tcond c) in Some (goto t (WT_Unlock timeout ch) [EvCapture ch] c))"
| "run_step t (WT_Unlock timeout ch) c =
     (case holder c of
        None \<Rightarrow> Some (die UnlockOfUnlockedMutex c)
      | Some _ \<Rightarrow> Some (goto t (WT_begin timeout ch) [EvUnlock] (c\<lparr>holder := None\<rparr>)))"
| "run_step t (WT_begin timeout ch) c =
     (let begin_t = clock c
      in Some (goto t (WT_select timeout ch begin_t) [EvNow begin_t] c))"
| "run_step t (WT_select timeout ch begin_t) c =
     (if ch \<in> closed (heap c)
      then Some (goto t (WT_end timeout ch begin_t False) [EvRecv ch False] c)
      else Some (goto t (WT_parked timeout ch begin_t) [] c))"
| "run_step t (WT_parked timeout ch begin_t) c =
     (if ch \<in> closed (heap c)
      then Some (goto t (WT_end timeout ch begin_t False) [EvRecv ch False] c)
      else None)"
| "run_step t (WT_end timeout ch begin_t ok) c =
     (let end_t = clock c;
          remainTimeout = timeout - (end_t - begin_t)
      in Some (goto t (WT_Lock timeout ch begin_t (remainTimeout, \<not> ok)) [EvNow end_t] c))"
| "run_step t (WT_Lock timeout ch begin_t r) c =
     (case holder c of
        None \<Rightarrow>
          Some (goto t (WT_removeWaiter timeout ch begin_t r) [EvLock] (c\<lparr>holder := Some t\<rparr>))
      | Some _ \<Rightarrow> None)"
| "run_step t (WT_removeWaiter timeout ch begin_t r) c =
     (case removeWaiter (tcond c) of
        Inl p \<Rightarrow> Some (die p c)
      | Inr cond' \<Rightarrow>
          Some (goto t Idle [EvRemoveWaiter, EvReturn (RDur (fst r) (snd r))]
                  (c\<lparr>tcond := cond'\<rparr>)))"
| "run_step t Signal_load c =
     (let ch = signal (tcond c) in Some (goto t (Signal_select ch) [EvCapture ch] c))"
| "run_step t (Signal_select ch) c =
     (if ch \<in> closed (heap c) then Some (die SendOnClosedChannel c)
      else if has_receiver ch c then None
      else Some (goto t Idle [EvDefault ch, EvReturn RUnit] c))"
| "run_step t Interrupt_Lock c =
     (case holder c of
        None \<Rightarrow> Some (goto t Interrupt_close [EvLock] (c\<lparr>holder := Some t\<rparr>))
      | Some _ \<Rightarrow> None)"
| "run_step t Interrupt_close c =
     (case close_chan (signal (tcond c)) (heap c) of
        Inl p \<Rightarrow> Some (die p c)
      | Inr h' \<Rightarrow> Some (goto t Interrupt_make [EvClose (signal (tcond c))] (c\<lparr>heap := h'\<rparr>)))"
| "run_step t Interrupt_make c =
     (let (ch, h') = make_chan (heap c)
      in Some (goto t Interrupt_Unlock [EvMake ch]
                 (c\<lparr>heap := h', tcond := (tcond c)\<lparr>signal := ch\<rparr>\<rparr>)))"
| "run_step t Interrupt_Unlock c =
     (case holder c of
        None \<Rightarrow> Some (die UnlockOfUnlockedMutex c)
      | Some _ \<Rightarrow> Some (goto t Idle [EvUnlock, EvReturn RUnit] (c\<lparr>holder := None\<rparr>)))"

text \<open>The timer of \<open>time.After(timeout)\<close> wins the \<open>select\<close> of goroutine \<open>t\<close>:
  \<open>return 0, false\<close>. When the timer fires is left to the environment.\<close>

fun fire_step :: "tid \<Rightarrow> pc \<Rightarrow> config \<Rightarrow> config option" where
  "fire_step t (WT_select timeout ch begin_t) c =
     Some (goto t (WT_Lock timeout ch begin_t (0, False)) [EvTimeout] c)"
| "fire_step t (WT_parked timeout ch begin_t) c =
     Some (goto t (WT_Lock timeout ch begin_t (0, False)) [EvTimeout] c)"
| "fire_step t _ c = None"

text \<open>The send case of the \<open>select\<close> in \<open>Signal\<close>: goroutine \<open>t\<close> hands the value to the
  parked receiver \<open>u\<close>, whose receive completes with \<open>ok = true\<close>. Which of several parked
  receivers gets the value is the scheduler's choice. When no receiver is parked the
  \<open>default\<close> case runs instead (\<open>run_step\<close>); a send on a closed channel panics.\<close>

fun wake :: "tid \<Rightarrow> pc \<Rightarrow> config \<Rightarrow> config" where
  "wake u (Wait_parked ch) c = (let ok = True in goto u (Wait_Lock ch (\<not> ok)) [EvRecv ch ok] c)"
| "wake u (WT_parked timeout ch begin_t) c =
     goto u (WT_end timeout ch begin_t True) [EvRecv ch True] c"
| "wake u _ c = c"

fun send_step :: "tid \<Rightarrow> tid \<Rightarrow> pc \<Rightarrow> pc \<Rightarrow> config \<Rightarrow> config option" where
  "send_step t u (Signal_select ch) q c =
     (if ch \<in> closed (heap c) then Some (die SendOnClosedChannel c)
      else if parked_on ch q
      then Some (goto t Idle [EvSend ch u, EvReturn RUnit] (wake u q c))
      else None)"
| "send_step t u _ q c = None"

text \<open>What the scheduler and the environment can do next: start a call of an idle
  goroutine, run the next statement of one, fire a timer, deliver a send, or move the
  wall clock (to any value: it is not monotonic). Nothing runs after a panic.\<close>

datatype label =
    Call tid call
  | Run tid
  | Fire tid
  | Send tid tid
  | Tick int64

definition step :: "label \<Rightarrow> config \<Rightarrow> config option" where
  "step l c =
     (if crashed c \<noteq> None then None
      else case l of
        Call t k \<Rightarrow>
          if t < length (threads c) \<and> pc (threads c ! t) = Idle then call_step t k c else None
      | Run t \<Rightarrow>
          if t < length (threads c) then run_step t (pc (threads c ! t)) c else None
      | Fire t \<Rightarrow>
          if t < length (threads c) then fire_step t (pc (threads c ! t)) c else None
      | Send t u \<Rightarrow>
          if t < length (threads c) \<and> u < length (threads c)
          then send_step t u (pc (threads c ! t)) (pc (threads c ! u)) c else None
      | Tick now \<Rightarrow> Some (c\<lparr>clock := now\<rparr>))"

fun run :: "label list \<Rightarrow> config \<Rightarrow> config option" where
  "run [] c = Some c"
| "run (l # ls) c = (case step l c of None \<Rightarrow> None | Some c' \<Rightarrow> run ls c')"

section \<open>Invariants of the executions\<close>

text \<open>The goroutines that have incremented the waiter counter and not yet decremented it.\<close>

fun in_flight :: "pc \<Rightarrow> bool" where
  "in_flight Idle = False"
| "in_flight Wait_addWaiter = False"
| "in_flight (WT_addWaiter timeout) = False"
| "in_flight Signal_load = False"
| "in_flight (Signal_select ch) = False"
| "in_flight Interrupt_Lock = False"
| "in_flight Interrupt_close = False"
| "in_flight Interrupt_make = False"
| "in_flight Interrupt_Unlock = False"
| "in_flight _ = True"

definition waiting :: "config \<Rightarrow> nat" where
  "waiting c = length (filter (\<lambda>th. in_flight (pc th)) (threads c))"

definition count_inv :: "config \<Rightarrow> bool" where
  "count_inv c = (unat (hasWaiters (tcond c)) = waiting c)"

text \<open>What the trace of the current call must be at each program counter: the statements
  of the source in the order in which they have run.\<close>

definition WT_prefix :: "int64 \<Rightarrow> chan \<Rightarrow> int64 \<Rightarrow> event list" where
  "WT_prefix timeout ch begin_t =
     [EvCall (CWaitWithTimeout timeout), EvAddWaiter, EvCapture ch, EvUnlock, EvNow begin_t]"

fun conforms :: "pc \<Rightarrow> event list \<Rightarrow> bool" where
  "conforms Idle es = True"
| "conforms Wait_addWaiter es = (es = [EvCall CWait])"
| "conforms Wait_capture es = (es = [EvCall CWait, EvAddWaiter])"
| "conforms (Wait_Unlock ch) es = (es = [EvCall CWait, EvAddWaiter, EvCapture ch])"
| "conforms (Wait_recv ch) es = (es = [EvCall CWait, EvAddWaiter, EvCapture ch, EvUnlock])"
| "conforms (Wait_parked ch) es = (es = [EvCall CWait, EvAddWaiter, EvCapture ch, EvUnlock])"
| "conforms (Wait_Lock ch r) es =
     (es = [EvCall CWait, EvAddWaiter, EvCapture ch, EvUnlock, EvRecv ch (\<not> r)])"
| "conforms (Wait_removeWaiter ch r) es =
     (es = [EvCall CWait, EvAddWaiter, EvCapture ch, EvUnlock, EvRecv ch (\<not> r), EvLock])"
| "conforms (WT_addWaiter timeout) es = (es = [EvCall (CWaitWithTimeout timeout)])"
| "conforms (WT_capture timeout) es = (es = [EvCall (CWaitWithTimeout timeout), EvAddWaiter])"
| "conforms (WT_Unlock timeout ch) es =
     (es = [EvCall (CWaitWithTimeout timeout), EvAddWaiter, EvCapture ch])"
| "conforms (WT_begin timeout ch) es =
     (es = [EvCall (CWaitWithTimeout timeout), EvAddWaiter, EvCapture ch, EvUnlock])"
| "conforms (WT_select timeout ch begin_t) es = (es = WT_prefix timeout ch begin_t)"
| "conforms (WT_parked timeout ch begin_t) es = (es = WT_prefix timeout ch begin_t)"
| "conforms (WT_end timeout ch begin_t ok) es =
     (es = WT_prefix timeout ch begin_t @ [EvRecv ch ok])"
| "conforms (WT_Lock timeout ch begin_t r) es =
     ((es = WT_prefix timeout ch begin_t @ [EvTimeout] \<and> r = (0, False)) \<or>
      (\<exists>end_t. es = WT_prefix timeout ch begin_t @ [EvRecv ch (\<not> snd r), EvNow end_t] \<and>
         fst r = timeout - (end_t - begin_t)))"
| "conforms (WT_removeWaiter timeout ch begin_t r) es =
     ((es = WT_prefix timeout ch begin_t @ [EvTimeout, EvLock] \<and> r = (0, False)) \<or>
      (\<exists>end_t. es = WT_prefix timeout ch begin_t @ [EvRecv ch (\<not> snd r), EvNow end_t, EvLock] \<and>
         fst r = timeout - (end_t - begin_t)))"
| "conforms Signal_load es = (es = [EvCall CSignal])"
| "conforms (Signal_select ch) es = (es = [EvCall CSignal, EvCapture ch])"
| "conforms Interrupt_Lock es = (es = [EvCall CInterrupt])"
| "conforms Interrupt_close es = (es = [EvCall CInterrupt, EvLock])"
| "conforms Interrupt_make es = (\<exists>ch. es = [EvCall CInterrupt, EvLock, EvClose ch])"
| "conforms Interrupt_Unlock es =
     (\<exists>ch ch'. es = [EvCall CInterrupt, EvLock, EvClose ch, EvMake ch'])"

definition traces_ok :: "config \<Rightarrow> bool" where
  "traces_ok c = list_all (\<lambda>th. conforms (pc th) (trace th)) (threads c)"

text \<open>
  The protocol of section 3 of the specification: a caller holds the lock when it calls
  \<open>Wait\<close>, \<open>WaitWithTimeout\<close> or \<open>Signal\<close>, and unlocks only a lock it holds. \<open>Interrupt\<close>
  takes the lock itself. \<open>drun\<close> is \<open>run\<close> restricted to callers that follow the protocol.
\<close>

fun disciplined :: "label \<Rightarrow> config \<Rightarrow> bool" where
  "disciplined (Call t CUnlock) c = (holder c = Some t)"
| "disciplined (Call t CWait) c = (holder c = Some t)"
| "disciplined (Call t (CWaitWithTimeout timeout)) c = (holder c = Some t)"
| "disciplined (Call t CSignal) c = (holder c = Some t)"
| "disciplined l c = True"

fun drun :: "label list \<Rightarrow> config \<Rightarrow> config option" where
  "drun [] c = Some c"
| "drun (l # ls) c =
     (if disciplined l c
      then (case step l c of None \<Rightarrow> None | Some c' \<Rightarrow> drun ls c')
      else None)"

text \<open>The statements that run while the goroutine holds the lock.\<close>

fun in_lock :: "pc \<Rightarrow> bool" where
  "in_lock Wait_addWaiter = True"
| "in_lock Wait_capture = True"
| "in_lock (Wait_Unlock ch) = True"
| "in_lock (Wait_removeWaiter ch r) = True"
| "in_lock (WT_addWaiter timeout) = True"
| "in_lock (WT_capture timeout) = True"
| "in_lock (WT_Unlock timeout ch) = True"
| "in_lock (WT_removeWaiter timeout ch begin_t r) = True"
| "in_lock Signal_load = True"
| "in_lock (Signal_select ch) = True"
| "in_lock Interrupt_close = True"
| "in_lock Interrupt_make = True"
| "in_lock Interrupt_Unlock = True"
| "in_lock _ = False"

definition lock_inv :: "config \<Rightarrow> bool" where
  "lock_inv c =
     (\<forall>t < length (threads c). in_lock (pc (threads c ! t)) \<longrightarrow> holder c = Some t)"

text \<open>The stored generation is a channel of the heap, and it is closed exactly while a
  goroutine is between the \<open>close\<close> and the assignment of \<open>Interrupt\<close>. A \<open>Signal\<close> in
  progress sends on the stored generation; an \<open>Interrupt\<close> has closed the generation
  that was stored and, after its assignment, stored the channel it made.\<close>

fun gen_ok :: "chan \<Rightarrow> chan set \<Rightarrow> pc \<Rightarrow> event list \<Rightarrow> bool" where
  "gen_ok s cl (Signal_select ch) es = (ch = s)"
| "gen_ok s cl Interrupt_make es = (es = [EvCall CInterrupt, EvLock, EvClose s])"
| "gen_ok s cl Interrupt_Unlock es =
     (\<exists>ch. es = [EvCall CInterrupt, EvLock, EvClose ch, EvMake s] \<and> ch \<in> cl)"
| "gen_ok s cl _ es = True"

definition gen_inv :: "config \<Rightarrow> bool" where
  "gen_inv c =
     (signal (tcond c) < nchan (heap c) \<and>
      (\<forall>ch \<in> closed (heap c). ch < nchan (heap c)) \<and>
      (signal (tcond c) \<in> closed (heap c)) =
        (\<exists>t < length (threads c). pc (threads c ! t) = Interrupt_make) \<and>
      (\<forall>t < length (threads c).
         gen_ok (signal (tcond c)) (closed (heap c)) (pc (threads c ! t)) (trace (threads c ! t))))"

text \<open>No panic other than the overflow of the waiter counter.\<close>

definition safe_crash :: "config \<Rightarrow> bool" where
  "safe_crash c = (crashed c = None \<or> crashed c = Some TooManyWaiters)"

definition good :: "config \<Rightarrow> bool" where
  "good c = (count_inv c \<and> traces_ok c \<and> lock_inv c \<and> gen_inv c \<and> safe_crash c)"

section \<open>What holds along one call\<close>

text \<open>
  Facts about goroutine \<open>t\<close> that hold from the entry of its call to \<open>Wait\<close> onwards, as long
  as it starts no other call: \<open>dl\<close> says whether a send has been delivered to it, \<open>cl\<close> is
  the set of closed channels, \<open>es\<close> its trace. After the receive the value \<open>r\<close> handed to
  \<open>return\<close> is true exactly when no send was delivered, and then the channel is closed.
\<close>

fun Wait_seg :: "pc \<Rightarrow> bool \<Rightarrow> chan set \<Rightarrow> event list \<Rightarrow> bool" where
  "Wait_seg Wait_addWaiter dl cl es = (\<not> dl)"
| "Wait_seg Wait_capture dl cl es = (\<not> dl)"
| "Wait_seg (Wait_Unlock ch) dl cl es = (\<not> dl)"
| "Wait_seg (Wait_recv ch) dl cl es = (\<not> dl)"
| "Wait_seg (Wait_parked ch) dl cl es = (\<not> dl)"
| "Wait_seg (Wait_Lock ch r) dl cl es = (r = (\<not> dl) \<and> (r \<longrightarrow> ch \<in> cl))"
| "Wait_seg (Wait_removeWaiter ch r) dl cl es = (r = (\<not> dl) \<and> (r \<longrightarrow> ch \<in> cl))"
| "Wait_seg Idle dl cl es =
     (\<exists>ch r. es = [EvCall CWait, EvAddWaiter, EvCapture ch, EvUnlock, EvRecv ch (\<not> r), EvLock,
                   EvRemoveWaiter, EvReturn (RBool r)] \<and>
             r = (\<not> dl) \<and> (r \<longrightarrow> ch \<in> cl))"
| "Wait_seg _ dl cl es = False"

text \<open>
  The same for \<open>WaitWithTimeout\<close>, in two parts: from the \<open>select\<close> to the receive, where the
  locals \<open>timeout\<close>, \<open>ch\<close> and \<open>begin\<close> stay what they are and \<open>ok\<close> says whether a send was
  delivered; and from the \<open>return\<close> statement to the return, where the value \<open>r\<close> stays what
  it is and the trace grows from \<open>es0\<close> by the two deferred calls.
\<close>

fun WT_seg_recv :: "pc \<Rightarrow> int64 \<Rightarrow> chan \<Rightarrow> int64 \<Rightarrow> bool \<Rightarrow> chan set \<Rightarrow> bool" where
  "WT_seg_recv (WT_select d' ch' b') d ch b dl cl = (d' = d \<and> ch' = ch \<and> b' = b \<and> \<not> dl)"
| "WT_seg_recv (WT_parked d' ch' b') d ch b dl cl = (d' = d \<and> ch' = ch \<and> b' = b \<and> \<not> dl)"
| "WT_seg_recv (WT_end d' ch' b' ok) d ch b dl cl =
     (d' = d \<and> ch' = ch \<and> b' = b \<and> ok = dl \<and> (\<not> ok \<longrightarrow> ch \<in> cl))"
| "WT_seg_recv (WT_Lock d' ch' b' r) d ch b dl cl = True"
| "WT_seg_recv (WT_removeWaiter d' ch' b' r) d ch b dl cl = True"
| "WT_seg_recv Idle d ch b dl cl = True"
| "WT_seg_recv _ d ch b dl cl = False"

fun WT_seg_ret :: "pc \<Rightarrow> int64 \<times> bool \<Rightarrow> event list \<Rightarrow> event list \<Rightarrow> bool" where
  "WT_seg_ret (WT_Lock d ch b r') r es0 es = (r' = r \<and> es = es0)"
| "WT_seg_ret (WT_removeWaiter d ch b r') r es0 es = (r' = r \<and> es = es0 @ [EvLock])"
| "WT_seg_ret Idle r es0 es =
     (es = es0 @ [EvLock, EvRemoveWaiter, EvReturn (RDur (fst r) (snd r))])"
| "WT_seg_ret _ r es0 es = False"

section \<open>Example schedules\<close>

text \<open>Goroutine 0 locks and calls \<open>Wait\<close>. Then either goroutine 1 interrupts, or it locks,
  signals and unlocks; goroutine 0 runs its call to the end.\<close>

definition sched_enter_Wait :: "label list" where
  "sched_enter_Wait = [Call 0 CLock, Call 0 CWait]"

definition sched_Wait_then_Interrupt :: "label list" where
  "sched_Wait_then_Interrupt =
     [Run 0, Run 0, Run 0, Run 0, Call 1 CInterrupt, Run 1, Run 1, Run 1, Run 1,
      Run 0, Run 0, Run 0]"

definition sched_Wait_then_Signal :: "label list" where
  "sched_Wait_then_Signal =
     [Run 0, Run 0, Run 0, Run 0, Call 1 CLock, Call 1 CSignal, Run 1, Send 1 0,
      Call 1 CUnlock, Run 0, Run 0]"

text \<open>Goroutine 0 locks, calls \<open>WaitWithTimeout(100)\<close> and is about to read the clock, which
  shows 1000. Then either goroutine 1 signals it and the clock shows 1250 when it has
  received, or goroutine 1 interrupts and the clock shows 1040. Last, goroutine 1 unlocks
  and goroutine 0 returns.\<close>

definition sched_enter_WT :: "label list" where
  "sched_enter_WT =
     [Call 0 CLock, Call 0 (CWaitWithTimeout 100), Run 0, Run 0, Run 0, Tick 1000]"

definition sched_WT_Signal_late :: "label list" where
  "sched_WT_Signal_late =
     [Run 0, Call 1 CLock, Call 1 CSignal, Run 1, Send 1 0, Tick 1250]"

definition sched_WT_Interrupt :: "label list" where
  "sched_WT_Interrupt =
     [Run 0, Call 1 CInterrupt, Run 1, Run 1, Run 1, Run 1, Tick 1040, Run 0]"

definition sched_WT_return :: "label list" where
  "sched_WT_return = [Call 1 CUnlock, Run 0, Run 0]"


text \<open>Goroutine 0, in \<open>Wait\<close>, parks; goroutine 1 interrupts; goroutine 0 completes its
  receive and is about to run its deferred calls.\<close>

definition sched_Wait_to_receive :: "label list" where
  "sched_Wait_to_receive =
     [Run 0, Run 0, Run 0, Run 0, Call 1 CInterrupt, Run 1, Run 1, Run 1, Run 1, Run 0]"

text \<open>Goroutine 0 locks, waits and parks; goroutine 1 takes the lock.\<close>

definition sched_park_then_lock :: "label list" where
  "sched_park_then_lock =
     [Call 0 CLock, Call 0 CWait, Run 0, Run 0, Run 0, Run 0, Call 1 CLock]"

section \<open>Properties of the waiter counter\<close>

lemma addWaiter_cases:
  "addWaiter cond =
     (if hasWaiters cond = MaxUint64 then Inl TooManyWaiters
      else Inr (cond\<lparr>hasWaiters := hasWaiters cond + 1\<rparr>))"
proof -
  have "(hasWaiters cond + 1 = 0) = (hasWaiters cond = - 1)"
    by (simp add: eq_neg_iff_add_eq_0)
  then show ?thesis
    by (simp add: addWaiter_def MaxUint64_def Let_def)
qed

lemma removeWaiter_cases:
  "removeWaiter cond =
     (if hasWaiters cond = 0 then Inl RemoveWaiterUnderflow
      else Inr (cond\<lparr>hasWaiters := hasWaiters cond - 1\<rparr>))"
  by (simp add: removeWaiter_def MaxUint64_def Let_def)

lemma unat_succ: "w \<noteq> MaxUint64 \<Longrightarrow> unat (w + 1) = Suc (unat w)"
  for w :: uint64
proof -
  assume "w \<noteq> MaxUint64"
  moreover have "MaxUint64 = - 1" by (simp add: MaxUint64_def)
  ultimately have "w \<noteq> - 1" by simp
  then have "1 + w \<noteq> 0" by (simp add: eq_neg_iff_add_eq_0 add.commute)
  then have "unat (1 + w) = Suc (unat w)" by (rule unatSuc)
  then show ?thesis by (simp add: add.commute)
qed

lemma unat_pred: "w \<noteq> 0 \<Longrightarrow> unat (w - 1) = unat w - 1"
  for w :: uint64
  by (simp add: unat_minus_one)

lemma unat_MaxUint64: "unat MaxUint64 = 2 ^ 64 - 1"
  by (simp add: MaxUint64_def)

lemma apply_wops_count:
  "paired d ops \<Longrightarrow> unat (hasWaiters cond) = d \<Longrightarrow> d + length ops < 2 ^ 64 \<Longrightarrow>
   \<exists>cond'. apply_wops ops cond = Inr cond' \<and>
     unat (hasWaiters cond') + exits ops = d + entries ops \<and>
     L cond' = L cond \<and> signal cond' = signal cond"
proof (induction d ops arbitrary: cond rule: paired.induct)
  case (1 depth)
  then show ?case by (simp add: entries_def exits_def)
next
  case (2 depth ops)
  have ne: "hasWaiters cond \<noteq> MaxUint64"
  proof
    assume "hasWaiters cond = MaxUint64"
    then have "unat (hasWaiters cond) = 2 ^ 64 - 1" by (simp add: unat_MaxUint64)
    with 2 show False by simp
  qed
  let ?c = "cond\<lparr>hasWaiters := hasWaiters cond + 1\<rparr>"
  have "unat (hasWaiters ?c) = Suc depth" using 2 ne by (simp add: unat_succ)
  moreover have "paired (Suc depth) ops" using 2 by simp
  moreover have "Suc depth + length ops < 2 ^ 64" using 2 by simp
  ultimately obtain cond' where "apply_wops ops ?c = Inr cond'"
    "unat (hasWaiters cond') + exits ops = Suc depth + entries ops"
    "L cond' = L ?c" "signal cond' = signal ?c"
    using 2 by blast
  then show ?case using ne by (simp add: addWaiter_cases entries_def exits_def)
next
  case (3 depth ops)
  have ne: "hasWaiters cond \<noteq> 0"
  proof
    assume "hasWaiters cond = 0"
    with 3 show False by simp
  qed
  let ?c = "cond\<lparr>hasWaiters := hasWaiters cond - 1\<rparr>"
  have "unat (hasWaiters ?c) = depth - 1" using 3 ne by (simp add: unat_pred)
  moreover have "paired (depth - 1) ops" using 3 by simp
  moreover have "depth - 1 + length ops < 2 ^ 64" using 3 by simp
  ultimately obtain cond' where "apply_wops ops ?c = Inr cond'"
    "unat (hasWaiters cond') + exits ops = depth - 1 + entries ops"
    "L cond' = L ?c" "signal cond' = signal ?c"
    using 3 by blast
  then show ?case using ne 3 by (simp add: removeWaiter_cases entries_def exits_def)
qed

lemma HasWaiters_unat: "HasWaiters cond = (0 < unat (hasWaiters cond))"
  by (simp add: HasWaiters_def word_greater_zero_iff unat_gt_0)

text \<open>
  Claim C5. Misuse of the waiter counter is fatal rather than silent: \<open>removeWaiter\<close> on a
  counter that is zero panics, \<open>addWaiter\<close> on a counter at the largest \<open>uint64\<close> panics, and
  in every other state the call returns with the counter decremented or incremented by one.
\<close>

theorem waiter_counter_misuse_panics:
  "removeWaiter cond =
     (if hasWaiters cond = 0 then Inl RemoveWaiterUnderflow
      else Inr (cond\<lparr>hasWaiters := hasWaiters cond - 1\<rparr>)) \<and>
   addWaiter cond =
     (if hasWaiters cond = MaxUint64 then Inl TooManyWaiters
      else Inr (cond\<lparr>hasWaiters := hasWaiters cond + 1\<rparr>))"
  by (simp only: removeWaiter_cases addWaiter_cases)

text \<open>
  Claim C7. On a fresh instance, after any correctly paired sequence of wait entries and exits
  (shorter than \<open>2 ^ 64\<close>, the range of the counter), no call has panicked and \<open>HasWaiters\<close>
  is true exactly when the entries outnumber the exits: false for the empty sequence, true
  while a wait is in progress, false again once every entry has its exit.
\<close>

theorem HasWaiters_paired:
  assumes "paired 0 ops" and "length ops < 2 ^ 64"
  shows "\<exists>cond'. apply_wops ops (fst (NewTimeoutCond l h)) = Inr cond' \<and>
           HasWaiters cond' = (exits ops < entries ops)"
proof -
  have "unat (hasWaiters (fst (NewTimeoutCond l h))) = 0"
    by (simp add: NewTimeoutCond_def make_chan_def)
  with apply_wops_count [OF assms(1) this] assms(2) obtain cond' where
    "apply_wops ops (fst (NewTimeoutCond l h)) = Inr cond'"
    "unat (hasWaiters cond') + exits ops = entries ops"
    by auto
  then show ?thesis by (auto simp: HasWaiters_unat)
qed

theorem HasWaiters_paired_witness:
  "paired 0 [Enter, Enter, Exit] \<and> length [Enter, Enter, Exit] < (2::nat) ^ 64 \<and>
   (\<exists>cond'. apply_wops [Enter, Enter, Exit] (fst (NewTimeoutCond 0 empty_heap)) = Inr cond' \<and>
           HasWaiters cond' = (exits [Enter, Enter, Exit] < entries [Enter, Enter, Exit]))"
proof -
  have p: "paired 0 [Enter, Enter, Exit]" by simp
  have l: "length [Enter, Enter, Exit] < (2::nat) ^ 64" by simp
  show ?thesis using p l HasWaiters_paired [OF p l, of 0 empty_heap] by blast
qed

section \<open>The waiter counter counts the goroutines in flight\<close>

lemma filter_upd_length:
  "t < length xs \<Longrightarrow>
   length (filter P (xs[t := x])) + (if P (xs ! t) then 1 else 0) =
   length (filter P xs) + (if P x then 1 else 0)"
proof (induction xs arbitrary: t)
  case Nil
  then show ?case by simp
next
  case (Cons a xs)
  then show ?case by (cases t) auto
qed

lemma waiting_goto:
  "t < length (threads c) \<Longrightarrow>
   waiting (goto t p evs c) + (if in_flight (pc (threads c ! t)) then 1 else 0) =
   waiting c + (if in_flight p then 1 else 0)"
  using filter_upd_length [of t "threads c" "\<lambda>th. in_flight (pc th)" "\<lparr>pc = p, trace = trace (threads c ! t) @ evs\<rparr>"]
  by (simp add: waiting_def goto_def)

lemma waiting_enter:
  "t < length (threads c) \<Longrightarrow>
   waiting (enter t p evs c) + (if in_flight (pc (threads c ! t)) then 1 else 0) =
   waiting c + (if in_flight p then 1 else 0)"
  using filter_upd_length [of t "threads c" "\<lambda>th. in_flight (pc th)" "\<lparr>pc = p, trace = evs\<rparr>"]
  by (simp add: waiting_def enter_def)

lemma waiting_upd [simp]:
  "waiting (c\<lparr>tcond := x\<rparr>) = waiting c"
  "waiting (c\<lparr>heap := h\<rparr>) = waiting c"
  "waiting (c\<lparr>holder := ho\<rparr>) = waiting c"
  "waiting (c\<lparr>clock := cl\<rparr>) = waiting c"
  "waiting (c\<lparr>crashed := cr\<rparr>) = waiting c"
  by (simp_all add: waiting_def)

lemma goto_fields [simp]:
  "tcond (goto t p evs c) = tcond c"
  "heap (goto t p evs c) = heap c"
  "holder (goto t p evs c) = holder c"
  "clock (goto t p evs c) = clock c"
  "crashed (goto t p evs c) = crashed c"
  "length (threads (goto t p evs c)) = length (threads c)"
  by (simp_all add: goto_def)

lemma enter_fields [simp]:
  "tcond (enter t p evs c) = tcond c"
  "heap (enter t p evs c) = heap c"
  "holder (enter t p evs c) = holder c"
  "clock (enter t p evs c) = clock c"
  "crashed (enter t p evs c) = crashed c"
  "length (threads (enter t p evs c)) = length (threads c)"
  by (simp_all add: enter_def)

lemma die_fields [simp]:
  "tcond (die x c) = tcond c"
  "heap (die x c) = heap c"
  "holder (die x c) = holder c"
  "clock (die x c) = clock c"
  "crashed (die x c) = Some x"
  "threads (die x c) = threads c"
  by (simp_all add: die_def)

lemma waiting_die [simp]: "waiting (die x c) = waiting c"
  by (simp add: waiting_def)

lemma waiting_goto_same:
  "t < length (threads c) \<Longrightarrow> in_flight p = in_flight (pc (threads c ! t)) \<Longrightarrow>
   waiting (goto t p evs c) = waiting c"
  using waiting_goto [of t c p evs] by (simp split: if_splits)

lemma waiting_enter_same:
  "t < length (threads c) \<Longrightarrow> in_flight p = in_flight (pc (threads c ! t)) \<Longrightarrow>
   waiting (enter t p evs c) = waiting c"
  using waiting_enter [of t c p evs] by (simp split: if_splits)

lemma waiting_pos:
  "t < length (threads c) \<Longrightarrow> in_flight (pc (threads c ! t)) \<Longrightarrow> 0 < waiting c"
  unfolding waiting_def
  by (metis (mono_tags, lifting) filter_empty_conv length_greater_0_conv nth_mem)

lemma count_run_step:
  assumes "count_inv c" "t < length (threads c)" "run_step t (pc (threads c ! t)) c = Some c'"
  shows "count_inv c'"
proof (cases "pc (threads c ! t)")
  case Wait_addWaiter
  then show ?thesis using assms waiting_goto [of t "c\<lparr>tcond := (tcond c)\<lparr>hasWaiters := hasWaiters (tcond c) + 1\<rparr>\<rparr>" Wait_capture "[EvAddWaiter]"]
    by (auto simp: count_inv_def addWaiter_cases unat_succ split: if_splits)
next
  case (Wait_removeWaiter ch r)
  then have "0 < waiting c" using assms waiting_pos by simp
  then show ?thesis using Wait_removeWaiter assms waiting_goto [of t "c\<lparr>tcond := (tcond c)\<lparr>hasWaiters := hasWaiters (tcond c) - 1\<rparr>\<rparr>" Idle "[EvRemoveWaiter, EvReturn (RBool r)]"]
    by (auto simp: count_inv_def removeWaiter_cases unat_pred split: if_splits)
next
  case (WT_addWaiter d)
  then show ?thesis using assms waiting_goto [of t "c\<lparr>tcond := (tcond c)\<lparr>hasWaiters := hasWaiters (tcond c) + 1\<rparr>\<rparr>" "WT_capture d" "[EvAddWaiter]"]
    by (auto simp: count_inv_def addWaiter_cases unat_succ split: if_splits)
next
  case (WT_removeWaiter d ch b r)
  then have "0 < waiting c" using assms waiting_pos by simp
  then show ?thesis using WT_removeWaiter assms waiting_goto [of t "c\<lparr>tcond := (tcond c)\<lparr>hasWaiters := hasWaiters (tcond c) - 1\<rparr>\<rparr>" Idle "[EvRemoveWaiter, EvReturn (RDur (fst r) (snd r))]"]
    by (auto simp: count_inv_def removeWaiter_cases unat_pred split: if_splits)
qed (use assms in \<open>auto simp: count_inv_def Let_def make_chan_def close_chan_def waiting_goto_same split: if_splits option.splits sum.splits\<close>)


lemma count_call_step:
  assumes "count_inv c" "t < length (threads c)" "pc (threads c ! t) = Idle"
    "call_step t k c = Some c'"
  shows "count_inv c'"
  using assms
  by (cases k) (auto simp: count_inv_def waiting_enter_same split: option.splits)

lemma count_fire_step:
  assumes "count_inv c" "t < length (threads c)" "fire_step t (pc (threads c ! t)) c = Some c'"
  shows "count_inv c'"
  using assms
  by (cases "pc (threads c ! t)") (auto simp: count_inv_def waiting_goto_same)

lemma nth_threads_goto:
  "v < length (threads c) \<Longrightarrow>
   threads (goto t p evs c) ! v =
     (if v = t then \<lparr>pc = p, trace = trace (threads c ! t) @ evs\<rparr> else threads c ! v)"
  by (simp add: goto_def nth_list_update)

lemma nth_threads_enter:
  "v < length (threads c) \<Longrightarrow>
   threads (enter t p evs c) ! v = (if v = t then \<lparr>pc = p, trace = evs\<rparr> else threads c ! v)"
  by (simp add: enter_def nth_list_update)

lemma wake_fields [simp]:
  "tcond (wake u q c) = tcond c"
  "heap (wake u q c) = heap c"
  "holder (wake u q c) = holder c"
  "clock (wake u q c) = clock c"
  "crashed (wake u q c) = crashed c"
  "length (threads (wake u q c)) = length (threads c)"
  by (cases q; simp add: Let_def)+

lemma waiting_wake:
  "u < length (threads c) \<Longrightarrow> parked_on ch (pc (threads c ! u)) \<Longrightarrow>
   waiting (wake u (pc (threads c ! u)) c) = waiting c"
  by (cases "pc (threads c ! u)") (auto simp: waiting_goto_same)

lemma pc_wake_other:
  "t < length (threads c) \<Longrightarrow> t \<noteq> u \<Longrightarrow> threads (wake u q c) ! t = threads c ! t"
  by (cases q) (auto simp: nth_threads_goto)

lemma count_send_step:
  assumes "count_inv c" "t < length (threads c)" "u < length (threads c)"
    "send_step t u (pc (threads c ! t)) (pc (threads c ! u)) c = Some c'"
  shows "count_inv c'"
proof (cases "pc (threads c ! t)")
  case (Signal_select ch)
  show ?thesis
  proof (cases "ch \<in> closed (heap c)")
    case True
    then show ?thesis using assms Signal_select by (auto simp: count_inv_def)
  next
    case False
    with assms Signal_select have p: "parked_on ch (pc (threads c ! u))"
      and c': "c' = goto t Idle [EvSend ch u, EvReturn RUnit] (wake u (pc (threads c ! u)) c)"
      by (auto split: if_splits)
    from p Signal_select have "t \<noteq> u" by auto
    then have "pc (threads (wake u (pc (threads c ! u)) c) ! t) = Signal_select ch"
      using assms(2) Signal_select by (simp add: pc_wake_other)
    then have "waiting c' = waiting (wake u (pc (threads c ! u)) c)"
      unfolding c' using assms(2) by (simp add: waiting_goto_same)
    then show ?thesis using assms(1,3) p by (simp add: count_inv_def waiting_wake c')
  qed
qed (use assms in auto)

lemma count_step:
  assumes "count_inv c" "step l c = Some c'"
  shows "count_inv c'"
proof (cases l)
  case (Call t k)
  then show ?thesis using assms count_call_step [of c t k c']
    by (auto simp: step_def split: if_splits)
next
  case (Run t)
  then show ?thesis using assms count_run_step [of c t c']
    by (auto simp: step_def split: if_splits)
next
  case (Fire t)
  then show ?thesis using assms count_fire_step [of c t c']
    by (auto simp: step_def split: if_splits)
next
  case (Send t u)
  then show ?thesis using assms count_send_step [of c t u c']
    by (auto simp: step_def split: if_splits)
next
  case (Tick now)
  then show ?thesis using assms by (auto simp: step_def count_inv_def split: if_splits)
qed

lemma count_run:
  "run ls c = Some c' \<Longrightarrow> count_inv c \<Longrightarrow> count_inv c'"
proof (induction ls arbitrary: c)
  case Nil
  then show ?case by simp
next
  case (Cons l ls)
  then show ?case by (auto split: option.splits dest: count_step)
qed

lemma init_fields [simp]:
  "tcond (init l n now) = \<lparr>L = l, signal = 0, hasWaiters = 0\<rparr>"
  "heap (init l n now) = \<lparr>closed = {}, nchan = 1\<rparr>"
  "holder (init l n now) = None"
  "clock (init l n now) = now"
  "threads (init l n now) = replicate n \<lparr>pc = Idle, trace = []\<rparr>"
  "crashed (init l n now) = None"
  by (simp_all add: init_def NewTimeoutCond_def make_chan_def empty_heap_def)

lemma count_init: "count_inv (init l n now)"
  by (simp add: count_inv_def waiting_def)

section \<open>Every trace follows the source\<close>

lemma list_all_upd:
  "list_all P xs \<Longrightarrow> P x \<Longrightarrow> list_all P (xs[t := x])"
  by (induction xs arbitrary: t) (auto split: nat.splits)

lemma traces_goto:
  "traces_ok c \<Longrightarrow> conforms p (trace (threads c ! t) @ evs) \<Longrightarrow> traces_ok (goto t p evs c)"
  by (simp add: traces_ok_def goto_def list_all_upd)

lemma traces_enter:
  "traces_ok c \<Longrightarrow> conforms p evs \<Longrightarrow> traces_ok (enter t p evs c)"
  by (simp add: traces_ok_def enter_def list_all_upd)

lemma traces_upd [simp]:
  "traces_ok (c\<lparr>tcond := x\<rparr>) = traces_ok c"
  "traces_ok (c\<lparr>heap := h\<rparr>) = traces_ok c"
  "traces_ok (c\<lparr>holder := ho\<rparr>) = traces_ok c"
  "traces_ok (c\<lparr>clock := cl\<rparr>) = traces_ok c"
  "traces_ok (die pn c) = traces_ok c"
  by (simp_all add: traces_ok_def die_def)

lemma traces_nth:
  "traces_ok c \<Longrightarrow> t < length (threads c) \<Longrightarrow> conforms (pc (threads c ! t)) (trace (threads c ! t))"
  by (simp add: traces_ok_def list_all_length)

lemma traces_run_step:
  assumes "traces_ok c" "t < length (threads c)" "run_step t (pc (threads c ! t)) c = Some c'"
  shows "traces_ok c'"
proof -
  have cf: "conforms (pc (threads c ! t)) (trace (threads c ! t))"
    using assms by (simp add: traces_nth)
  show ?thesis
    using assms(1,3) cf
    by (cases "pc (threads c ! t)")
      (auto simp: Let_def WT_prefix_def make_chan_def close_chan_def traces_goto
        split: if_splits option.splits sum.splits)
qed

lemma traces_call_step:
  assumes "traces_ok c" "call_step t k c = Some c'"
  shows "traces_ok c'"
  using assms by (cases k) (auto intro!: traces_enter split: option.splits)

lemma traces_fire_step:
  assumes "traces_ok c" "t < length (threads c)" "fire_step t (pc (threads c ! t)) c = Some c'"
  shows "traces_ok c'"
proof -
  have cf: "conforms (pc (threads c ! t)) (trace (threads c ! t))"
    using assms by (simp add: traces_nth)
  show ?thesis
    using assms(1,3) cf
    by (cases "pc (threads c ! t)") (auto simp: WT_prefix_def intro!: traces_goto)
qed

lemma traces_wake:
  assumes "traces_ok c" "u < length (threads c)"
  shows "traces_ok (wake u (pc (threads c ! u)) c)"
proof -
  have cf: "conforms (pc (threads c ! u)) (trace (threads c ! u))"
    using assms by (simp add: traces_nth)
  show ?thesis
    using assms(1) cf
    by (cases "pc (threads c ! u)") (auto simp: WT_prefix_def Let_def intro!: traces_goto)
qed

lemma traces_send_step:
  assumes "traces_ok c" "t < length (threads c)" "u < length (threads c)"
    "send_step t u (pc (threads c ! t)) (pc (threads c ! u)) c = Some c'"
  shows "traces_ok c'"
proof (cases "pc (threads c ! t)")
  case (Signal_select ch)
  show ?thesis
  proof (cases "ch \<in> closed (heap c)")
    case True
    then show ?thesis using assms Signal_select by auto
  next
    case False
    with assms Signal_select have p: "parked_on ch (pc (threads c ! u))"
      and c': "c' = goto t Idle [EvSend ch u, EvReturn RUnit] (wake u (pc (threads c ! u)) c)"
      by (auto split: if_splits)
    show ?thesis unfolding c' using assms(1,3) by (intro traces_goto traces_wake) simp_all
  qed
qed (use assms in auto)

lemma traces_step:
  assumes "traces_ok c" "step l c = Some c'"
  shows "traces_ok c'"
proof (cases l)
  case (Call t k)
  then show ?thesis using assms traces_call_step [of c t k c']
    by (auto simp: step_def split: if_splits)
next
  case (Run t)
  then show ?thesis using assms traces_run_step [of c t c']
    by (auto simp: step_def split: if_splits)
next
  case (Fire t)
  then show ?thesis using assms traces_fire_step [of c t c']
    by (auto simp: step_def split: if_splits)
next
  case (Send t u)
  then show ?thesis using assms traces_send_step [of c t u c']
    by (auto simp: step_def split: if_splits)
next
  case (Tick now)
  then show ?thesis using assms by (auto simp: step_def split: if_splits)
qed

lemma traces_run:
  "run ls c = Some c' \<Longrightarrow> traces_ok c \<Longrightarrow> traces_ok c'"
proof (induction ls arbitrary: c)
  case Nil
  then show ?case by simp
next
  case (Cons l ls)
  then show ?case by (auto split: option.splits dest: traces_step)
qed

lemma traces_init: "traces_ok (init l n now)"
  by (simp add: traces_ok_def list_all_iff)

section \<open>The lock protects the critical statements\<close>

lemma pc_goto:
  "v < length (threads c) \<Longrightarrow>
   pc (threads (goto t p evs c) ! v) = (if v = t then p else pc (threads c ! v))"
  by (simp add: nth_threads_goto)

lemma trace_goto:
  "v < length (threads c) \<Longrightarrow>
   trace (threads (goto t p evs c) ! v) =
     (if v = t then trace (threads c ! t) @ evs else trace (threads c ! v))"
  by (simp add: nth_threads_goto)

lemma pc_enter:
  "v < length (threads c) \<Longrightarrow>
   pc (threads (enter t p evs c) ! v) = (if v = t then p else pc (threads c ! v))"
  by (simp add: nth_threads_enter)

lemma trace_enter:
  "v < length (threads c) \<Longrightarrow>
   trace (threads (enter t p evs c) ! v) = (if v = t then evs else trace (threads c ! v))"
  by (simp add: nth_threads_enter)

lemma lock_upd [simp]:
  "lock_inv (c\<lparr>tcond := x\<rparr>) = lock_inv c"
  "lock_inv (c\<lparr>heap := h\<rparr>) = lock_inv c"
  "lock_inv (c\<lparr>clock := cl\<rparr>) = lock_inv c"
  "lock_inv (die pn c) = lock_inv c"
  by (simp_all add: lock_inv_def die_def)

lemma lock_holder:
  "lock_inv c \<Longrightarrow> t < length (threads c) \<Longrightarrow> in_lock (pc (threads c ! t)) \<Longrightarrow> holder c = Some t"
  by (simp add: lock_inv_def)

lemma lock_others:
  "lock_inv c \<Longrightarrow> holder c = Some t \<Longrightarrow> v < length (threads c) \<Longrightarrow> v \<noteq> t \<Longrightarrow>
   \<not> in_lock (pc (threads c ! v))"
  by (auto simp: lock_inv_def)

lemma lock_none:
  "lock_inv c \<Longrightarrow> holder c = None \<Longrightarrow> v < length (threads c) \<Longrightarrow> \<not> in_lock (pc (threads c ! v))"
  by (auto simp: lock_inv_def)

lemma lock_goto_keep:
  "lock_inv c \<Longrightarrow> t < length (threads c) \<Longrightarrow> (in_lock p \<longrightarrow> in_lock (pc (threads c ! t))) \<Longrightarrow>
   lock_inv (goto t p evs c)"
  by (auto simp: lock_inv_def pc_goto split: if_splits)

lemma lock_acquire:
  "lock_inv c \<Longrightarrow> holder c = None \<Longrightarrow> lock_inv (goto t p evs (c\<lparr>holder := Some t\<rparr>))"
  by (auto simp: lock_inv_def pc_goto split: if_splits)

lemma lock_release:
  assumes "lock_inv c" "holder c = Some t" "\<not> in_lock p"
  shows "lock_inv (goto t p evs (c\<lparr>holder := None\<rparr>))"
  unfolding lock_inv_def
proof (intro allI impI)
  fix v
  assume v: "v < length (threads (goto t p evs (c\<lparr>holder := None\<rparr>)))"
    and il: "in_lock (pc (threads (goto t p evs (c\<lparr>holder := None\<rparr>)) ! v))"
  from v have v': "v < length (threads c)" by simp
  have "v \<noteq> t" using il v' assms(3) by (auto simp: pc_goto)
  with il v' have "in_lock (pc (threads c ! v))" by (simp add: pc_goto)
  with lock_others [OF assms(1,2) v' \<open>v \<noteq> t\<close>] show
    "holder (goto t p evs (c\<lparr>holder := None\<rparr>)) = Some v" by simp
qed

lemma lock_run_step:
  assumes "lock_inv c" "t < length (threads c)" "run_step t (pc (threads c ! t)) c = Some c'"
  shows "lock_inv c'"
proof -
  have h: "in_lock (pc (threads c ! t)) \<Longrightarrow> holder c = Some t"
    using assms by (simp add: lock_holder)
  show ?thesis
    using assms h
    by (cases "pc (threads c ! t)")
      (auto simp: Let_def make_chan_def close_chan_def lock_goto_keep lock_acquire lock_release
        split: if_splits option.splits sum.splits)
qed


lemma lock_enter:
  assumes "lock_inv c" "t < length (threads c)" "in_lock p \<longrightarrow> holder c = Some t"
  shows "lock_inv (enter t p evs c)"
  unfolding lock_inv_def
proof (intro allI impI)
  fix v
  assume v: "v < length (threads (enter t p evs c))"
    and il: "in_lock (pc (threads (enter t p evs c) ! v))"
  from v have v': "v < length (threads c)" by simp
  show "holder (enter t p evs c) = Some v"
  proof (cases "v = t")
    case True
    then show ?thesis using il v' assms(3) by (simp add: pc_enter)
  next
    case False
    then have "in_lock (pc (threads c ! v))" using il v' by (simp add: pc_enter)
    then show ?thesis using assms(1) v' by (simp add: lock_inv_def)
  qed
qed

lemma lock_enter_acquire:
  assumes "lock_inv c" "t < length (threads c)" "holder c = None"
  shows "lock_inv (enter t p evs (c\<lparr>holder := Some t\<rparr>))"
  unfolding lock_inv_def
proof (intro allI impI)
  fix v
  assume v: "v < length (threads (enter t p evs (c\<lparr>holder := Some t\<rparr>)))"
    and il: "in_lock (pc (threads (enter t p evs (c\<lparr>holder := Some t\<rparr>)) ! v))"
  from v have v': "v < length (threads c)" by simp
  have "v = t"
  proof (rule ccontr)
    assume "v \<noteq> t"
    then have "in_lock (pc (threads c ! v))" using il v' by (simp add: pc_enter)
    then show False using lock_none [OF assms(1,3) v'] by simp
  qed
  then show "holder (enter t p evs (c\<lparr>holder := Some t\<rparr>)) = Some v" by simp
qed

lemma lock_enter_release:
  assumes "lock_inv c" "t < length (threads c)" "holder c = Some t" "\<not> in_lock p"
  shows "lock_inv (enter t p evs (c\<lparr>holder := None\<rparr>))"
  unfolding lock_inv_def
proof (intro allI impI)
  fix v
  assume v: "v < length (threads (enter t p evs (c\<lparr>holder := None\<rparr>)))"
    and il: "in_lock (pc (threads (enter t p evs (c\<lparr>holder := None\<rparr>)) ! v))"
  from v have v': "v < length (threads c)" by simp
  have "v \<noteq> t" using il v' assms(4) by (auto simp: pc_enter)
  with il v' have "in_lock (pc (threads c ! v))" by (simp add: pc_enter)
  with lock_others [OF assms(1,3) v' \<open>v \<noteq> t\<close>] show
    "holder (enter t p evs (c\<lparr>holder := None\<rparr>)) = Some v" by simp
qed

lemma lock_call_step:
  assumes "lock_inv c" "t < length (threads c)" "pc (threads c ! t) = Idle"
    "disciplined (Call t k) c" "call_step t k c = Some c'"
  shows "lock_inv c'"
proof (cases k)
  case CLock
  then show ?thesis using assms by (auto simp: lock_enter_acquire split: option.splits)
next
  case CUnlock
  then show ?thesis using assms by (auto simp: lock_enter_release split: option.splits)
qed (use assms in \<open>auto simp: lock_enter\<close>)

lemma lock_fire_step:
  assumes "lock_inv c" "t < length (threads c)" "fire_step t (pc (threads c ! t)) c = Some c'"
  shows "lock_inv c'"
  using assms
  by (cases "pc (threads c ! t)") (auto simp: lock_goto_keep)

lemma lock_wake:
  assumes "lock_inv c" "u < length (threads c)"
  shows "lock_inv (wake u (pc (threads c ! u)) c)"
  using assms
  by (cases "pc (threads c ! u)") (auto simp: lock_goto_keep Let_def)

lemma lock_send_step:
  assumes "lock_inv c" "t < length (threads c)" "u < length (threads c)"
    "send_step t u (pc (threads c ! t)) (pc (threads c ! u)) c = Some c'"
  shows "lock_inv c'"
proof (cases "pc (threads c ! t)")
  case (Signal_select ch)
  show ?thesis
  proof (cases "ch \<in> closed (heap c)")
    case True
    then show ?thesis using assms Signal_select by auto
  next
    case False
    with assms Signal_select have p: "parked_on ch (pc (threads c ! u))"
      and c': "c' = goto t Idle [EvSend ch u, EvReturn RUnit] (wake u (pc (threads c ! u)) c)"
      by (auto split: if_splits)
    show ?thesis unfolding c' using assms(1,2,3) by (intro lock_goto_keep lock_wake) simp_all
  qed
qed (use assms in auto)

lemma gen_upd [simp]:
  "gen_inv (c\<lparr>holder := ho\<rparr>) = gen_inv c"
  "gen_inv (c\<lparr>clock := cl\<rparr>) = gen_inv c"
  "gen_inv (die pn c) = gen_inv c"
  "gen_inv (c\<lparr>tcond := (tcond c)\<lparr>hasWaiters := w\<rparr>\<rparr>) = gen_inv c"
  by (simp_all add: gen_inv_def die_def)

lemma gen_goto_plain:
  assumes "gen_inv c" "t < length (threads c)" "pc (threads c ! t) \<noteq> Interrupt_make"
    "p \<noteq> Interrupt_make"
    "gen_ok (signal (tcond c)) (closed (heap c)) p (trace (threads c ! t) @ evs)"
  shows "gen_inv (goto t p evs c)"
proof -
  have ex: "(\<exists>v<length (threads c). pc (threads (goto t p evs c) ! v) = Interrupt_make) =
            (\<exists>v<length (threads c). pc (threads c ! v) = Interrupt_make)"
    using assms(2,3,4) by (auto simp: pc_goto split: if_splits)
  show ?thesis
    using assms(1,2,5) unfolding gen_inv_def
    by (simp add: ex) (simp add: pc_goto trace_goto)
qed

lemma gen_enter_plain:
  assumes "gen_inv c" "t < length (threads c)" "pc (threads c ! t) \<noteq> Interrupt_make"
    "p \<noteq> Interrupt_make" "gen_ok (signal (tcond c)) (closed (heap c)) p evs"
  shows "gen_inv (enter t p evs c)"
proof -
  have ex: "(\<exists>v<length (threads c). pc (threads (enter t p evs c) ! v) = Interrupt_make) =
            (\<exists>v<length (threads c). pc (threads c ! v) = Interrupt_make)"
    using assms(2,3,4) by (auto simp: pc_enter split: if_splits)
  show ?thesis
    using assms(1,2,5) unfolding gen_inv_def
    by (simp add: ex) (simp add: pc_enter trace_enter)
qed

section \<open>The stored generation\<close>

lemma no_maker:
  assumes "lock_inv c" "t < length (threads c)" "in_lock (pc (threads c ! t))"
    "pc (threads c ! t) \<noteq> Interrupt_make" "v < length (threads c)"
  shows "pc (threads c ! v) \<noteq> Interrupt_make"
proof
  assume m: "pc (threads c ! v) = Interrupt_make"
  then have "v \<noteq> t" using assms(4) by auto
  moreover have "holder c = Some t" using assms(1-3) by (rule lock_holder)
  ultimately have "\<not> in_lock (pc (threads c ! v))" using assms(1,5) by (simp add: lock_others)
  with m show False by simp
qed

lemma gen_open:
  assumes "gen_inv c" "lock_inv c" "t < length (threads c)" "in_lock (pc (threads c ! t))"
    "pc (threads c ! t) \<noteq> Interrupt_make"
  shows "signal (tcond c) \<notin> closed (heap c)"
  using assms no_maker [OF assms(2,3,4,5)] by (auto simp: gen_inv_def)

lemma gen_close:
  assumes "gen_inv c" "lock_inv c" "traces_ok c" "t < length (threads c)"
    "pc (threads c ! t) = Interrupt_close"
  shows "gen_inv (goto t Interrupt_make [EvClose (signal (tcond c))]
           (c\<lparr>heap := (heap c)\<lparr>closed := insert (signal (tcond c)) (closed (heap c))\<rparr>\<rparr>))"
    (is "gen_inv ?c'")
proof -
  have tr: "trace (threads c ! t) = [EvCall CInterrupt, EvLock]"
    using traces_nth [OF assms(3,4)] assms(5) by simp
  have others: "\<And>v. v < length (threads c) \<Longrightarrow> v \<noteq> t \<Longrightarrow> \<not> in_lock (pc (threads c ! v))"
    using lock_others [OF assms(2) lock_holder [OF assms(2,4)]] assms(5) by simp
  have g: "\<And>v. v < length (threads c) \<Longrightarrow>
     gen_ok (signal (tcond c)) (closed (heap c)) (pc (threads c ! v)) (trace (threads c ! v))"
    using assms(1) by (simp add: gen_inv_def)
  have ok: "gen_ok (signal (tcond ?c')) (closed (heap ?c')) (pc (threads ?c' ! v))
              (trace (threads ?c' ! v))" if v: "v < length (threads c)" for v
  proof (cases "v = t")
    case True
    then show ?thesis using v tr by (simp add: pc_goto trace_goto)
  next
    case False
    have "\<not> in_lock (pc (threads c ! v))" using others v False by simp
    then have "gen_ok s cl (pc (threads c ! v)) es" for s cl es
      by (cases "pc (threads c ! v)") simp_all
    then show ?thesis using v False by (simp add: pc_goto trace_goto)
  qed
  have ex: "\<exists>v<length (threads ?c'). pc (threads ?c' ! v) = Interrupt_make"
    using assms(4) by (auto simp: pc_goto intro!: exI [of _ t])
  show ?thesis
    unfolding gen_inv_def
  proof (intro conjI)
    show "signal (tcond ?c') < nchan (heap ?c')" using assms(1) by (simp add: gen_inv_def)
    show "\<forall>ch\<in>closed (heap ?c'). ch < nchan (heap ?c')" using assms(1) by (auto simp: gen_inv_def)
    show "(signal (tcond ?c') \<in> closed (heap ?c')) =
      (\<exists>t<length (threads ?c'). pc (threads ?c' ! t) = Interrupt_make)"
      using ex by simp
    show "\<forall>t<length (threads ?c'). gen_ok (signal (tcond ?c')) (closed (heap ?c'))
       (pc (threads ?c' ! t)) (trace (threads ?c' ! t))"
      using ok by simp
  qed
qed

lemma gen_make:
  assumes "gen_inv c" "lock_inv c" "t < length (threads c)"
    "pc (threads c ! t) = Interrupt_make"
  shows "gen_inv (goto t Interrupt_Unlock [EvMake (nchan (heap c))]
           (c\<lparr>heap := (heap c)\<lparr>nchan := Suc (nchan (heap c))\<rparr>,
              tcond := (tcond c)\<lparr>signal := nchan (heap c)\<rparr>\<rparr>))"
    (is "gen_inv ?c'")
proof -
  have g: "\<And>v. v < length (threads c) \<Longrightarrow>
     gen_ok (signal (tcond c)) (closed (heap c)) (pc (threads c ! v)) (trace (threads c ! v))"
    using assms(1) by (simp add: gen_inv_def)
  have tr: "trace (threads c ! t) = [EvCall CInterrupt, EvLock, EvClose (signal (tcond c))]"
    using g [OF assms(3)] assms(4) by simp
  have cl: "signal (tcond c) \<in> closed (heap c)"
    using assms(1,3,4) by (auto simp: gen_inv_def)
  have others: "\<And>v. v < length (threads c) \<Longrightarrow> v \<noteq> t \<Longrightarrow> \<not> in_lock (pc (threads c ! v))"
    using lock_others [OF assms(2) lock_holder [OF assms(2,3)]] assms(4) by simp
  have fresh: "nchan (heap c) \<notin> closed (heap c)"
    using assms(1) by (auto simp: gen_inv_def)
  have ok: "gen_ok (signal (tcond ?c')) (closed (heap ?c')) (pc (threads ?c' ! v))
              (trace (threads ?c' ! v))" if v: "v < length (threads c)" for v
  proof (cases "v = t")
    case True
    then show ?thesis using v tr cl by (simp add: pc_goto trace_goto)
  next
    case False
    have "\<not> in_lock (pc (threads c ! v))" using others v False by simp
    then have "gen_ok s cl (pc (threads c ! v)) es" for s cl es
      by (cases "pc (threads c ! v)") simp_all
    then show ?thesis using v False by (simp add: pc_goto trace_goto)
  qed
  have nex: "\<not> (\<exists>v<length (threads ?c'). pc (threads ?c' ! v) = Interrupt_make)"
  proof
    assume "\<exists>v<length (threads ?c'). pc (threads ?c' ! v) = Interrupt_make"
    then obtain v where v: "v < length (threads c)" and m: "pc (threads ?c' ! v) = Interrupt_make"
      by auto
    then have "v \<noteq> t" by (auto simp: pc_goto)
    with v m have "pc (threads c ! v) = Interrupt_make" by (simp add: pc_goto)
    with others [OF v \<open>v \<noteq> t\<close>] show False by simp
  qed
  show ?thesis
    unfolding gen_inv_def
  proof (intro conjI)
    show "signal (tcond ?c') < nchan (heap ?c')" by simp
    show "\<forall>ch\<in>closed (heap ?c'). ch < nchan (heap ?c')"
      using assms(1) by (auto simp: gen_inv_def less_Suc_eq)
    show "(signal (tcond ?c') \<in> closed (heap ?c')) =
      (\<exists>t<length (threads ?c'). pc (threads ?c' ! t) = Interrupt_make)"
      using nex fresh by simp
    show "\<forall>t<length (threads ?c'). gen_ok (signal (tcond ?c')) (closed (heap ?c'))
       (pc (threads ?c' ! t)) (trace (threads ?c' ! t))"
      using ok by simp
  qed
qed

lemma gen_run_step:
  assumes "gen_inv c" "lock_inv c" "traces_ok c" "t < length (threads c)"
    "run_step t (pc (threads c ! t)) c = Some c'"
  shows "gen_inv c'"
proof (cases "pc (threads c ! t)")
  case Interrupt_close
  then have "signal (tcond c) \<notin> closed (heap c)"
    using gen_open [OF assms(1,2,4)] by simp
  then show ?thesis using assms(5) Interrupt_close gen_close [OF assms(1-4) Interrupt_close]
    by (simp add: close_chan_def)
next
  case Interrupt_make
  then show ?thesis using assms(5) gen_make [OF assms(1,2,4) Interrupt_make]
    by (simp add: make_chan_def)
qed (use assms in \<open>auto simp: Let_def addWaiter_cases removeWaiter_cases gen_goto_plain
      split: if_splits option.splits\<close>)


lemma gen_call_step:
  assumes "gen_inv c" "t < length (threads c)" "pc (threads c ! t) = Idle"
    "call_step t k c = Some c'"
  shows "gen_inv c'"
  using assms by (cases k) (auto simp: gen_enter_plain split: option.splits)

lemma gen_fire_step:
  assumes "gen_inv c" "t < length (threads c)" "fire_step t (pc (threads c ! t)) c = Some c'"
  shows "gen_inv c'"
  using assms by (cases "pc (threads c ! t)") (auto simp: gen_goto_plain)

lemma gen_wake:
  assumes "gen_inv c" "u < length (threads c)"
  shows "gen_inv (wake u (pc (threads c ! u)) c)"
  using assms by (cases "pc (threads c ! u)") (auto simp: gen_goto_plain Let_def)

lemma gen_send_step:
  assumes "gen_inv c" "t < length (threads c)" "u < length (threads c)"
    "send_step t u (pc (threads c ! t)) (pc (threads c ! u)) c = Some c'"
  shows "gen_inv c'"
proof (cases "pc (threads c ! t)")
  case (Signal_select ch)
  show ?thesis
  proof (cases "ch \<in> closed (heap c)")
    case True
    then show ?thesis using assms Signal_select by auto
  next
    case False
    with assms Signal_select have p: "parked_on ch (pc (threads c ! u))"
      and c': "c' = goto t Idle [EvSend ch u, EvReturn RUnit] (wake u (pc (threads c ! u)) c)"
      by (auto split: if_splits)
    from p Signal_select have "t \<noteq> u" by auto
    then have "pc (threads (wake u (pc (threads c ! u)) c) ! t) = Signal_select ch"
      using assms(2) Signal_select by (simp add: pc_wake_other)
    then show ?thesis unfolding c' using assms(1,2,3)
      by (intro gen_goto_plain gen_wake) simp_all
  qed
qed (use assms in auto)

lemma safe_upd [simp]:
  "safe_crash (c\<lparr>tcond := x\<rparr>) = safe_crash c"
  "safe_crash (c\<lparr>heap := h\<rparr>) = safe_crash c"
  "safe_crash (c\<lparr>holder := ho\<rparr>) = safe_crash c"
  "safe_crash (c\<lparr>clock := cl\<rparr>) = safe_crash c"
  "safe_crash (goto t p evs c) = safe_crash c"
  "safe_crash (enter t p evs c) = safe_crash c"
  "safe_crash (wake u q c) = safe_crash c"
  "safe_crash (die pn c) = (pn = TooManyWaiters)"
  by (simp_all add: safe_crash_def)

lemma count_nonzero:
  assumes "count_inv c" "t < length (threads c)" "in_flight (pc (threads c ! t))"
  shows "hasWaiters (tcond c) \<noteq> 0"
proof
  assume "hasWaiters (tcond c) = 0"
  then have "waiting c = 0" using assms(1) by (simp add: count_inv_def)
  with waiting_pos [OF assms(2,3)] show False by simp
qed

lemma safe_run_step:
  assumes "count_inv c" "gen_inv c" "lock_inv c" "safe_crash c" "t < length (threads c)"
    "run_step t (pc (threads c ! t)) c = Some c'"
  shows "safe_crash c'"
proof -
  have h: "in_lock (pc (threads c ! t)) \<Longrightarrow> holder c = Some t"
    using assms by (simp add: lock_holder)
  have nz: "in_flight (pc (threads c ! t)) \<Longrightarrow> hasWaiters (tcond c) \<noteq> 0"
    using assms by (simp add: count_nonzero)
  have op: "in_lock (pc (threads c ! t)) \<Longrightarrow> pc (threads c ! t) \<noteq> Interrupt_make \<Longrightarrow>
    signal (tcond c) \<notin> closed (heap c)"
    using gen_open [OF assms(2,3,5)] by simp
  have sel: "\<And>ch. pc (threads c ! t) = Signal_select ch \<Longrightarrow> ch = signal (tcond c)"
    using assms(2,5) by (auto simp: gen_inv_def)
  show ?thesis
  proof (cases "pc (threads c ! t)")
    case (Signal_select ch)
    then show ?thesis using assms(4,6) op sel [OF Signal_select]
      by (auto split: if_splits)
  next
    case Interrupt_close
    then show ?thesis using assms(4,6) op by (auto simp: close_chan_def split: if_splits)
  qed (use assms(4,6) h nz in \<open>auto simp: Let_def addWaiter_cases removeWaiter_cases make_chan_def
        split: if_splits option.splits\<close>)
qed

lemma safe_call_step:
  assumes "safe_crash c" "disciplined (Call t k) c" "call_step t k c = Some c'"
  shows "safe_crash c'"
  using assms by (cases k) (auto split: option.splits)

lemma safe_fire_step:
  assumes "safe_crash c" "fire_step t (pc (threads c ! t)) c = Some c'"
  shows "safe_crash c'"
  using assms by (cases "pc (threads c ! t)") auto

lemma safe_send_step:
  assumes "gen_inv c" "lock_inv c" "safe_crash c" "t < length (threads c)"
    "send_step t u (pc (threads c ! t)) (pc (threads c ! u)) c = Some c'"
  shows "safe_crash c'"
proof (cases "pc (threads c ! t)")
  case (Signal_select ch)
  then have "ch = signal (tcond c)" using assms(1,4) by (auto simp: gen_inv_def)
  moreover have "signal (tcond c) \<notin> closed (heap c)"
    using gen_open [OF assms(1,2,4)] Signal_select by simp
  ultimately show ?thesis using assms(3,5) Signal_select by (auto split: if_splits)
qed (use assms in auto)

lemma good_step:
  assumes "good c" "disciplined l c" "step l c = Some c'"
  shows "good c'"
proof -
  from assms(1) have i: "count_inv c" "traces_ok c" "lock_inv c" "gen_inv c" "safe_crash c"
    by (simp_all add: good_def)
  have "count_inv c'" using i(1) assms(3) by (rule count_step)
  moreover have "traces_ok c'" using i(2) assms(3) by (rule traces_step)
  moreover have "lock_inv c' \<and> gen_inv c' \<and> safe_crash c'"
  proof (cases l)
    case (Call t k)
    then show ?thesis
      using assms(2,3) i lock_call_step [of c t k c'] gen_call_step [of c t k c']
        safe_call_step [of c t k c']
      by (auto simp: step_def split: if_splits)
  next
    case (Run t)
    then show ?thesis
      using assms(3) i lock_run_step [of c t c'] gen_run_step [of c t c'] safe_run_step [of c t c']
      by (auto simp: step_def split: if_splits)
  next
    case (Fire t)
    then show ?thesis
      using assms(3) i lock_fire_step [of c t c'] gen_fire_step [of c t c']
        safe_fire_step [of c t c']
      by (auto simp: step_def split: if_splits)
  next
    case (Send t u)
    then show ?thesis
      using assms(3) i lock_send_step [of c t u c'] gen_send_step [of c t u c']
        safe_send_step [of c t u c']
      by (auto simp: step_def split: if_splits)
  next
    case (Tick now)
    then show ?thesis using assms(3) i by (auto simp: step_def split: if_splits)
  qed
  ultimately show ?thesis by (simp add: good_def)
qed

lemma good_drun:
  "drun ls c = Some c' \<Longrightarrow> good c \<Longrightarrow> good c'"
proof (induction ls arbitrary: c)
  case Nil
  then show ?case by simp
next
  case (Cons l ls)
  then show ?case by (auto split: option.splits if_splits dest: good_step)
qed

lemma drun_run: "drun ls c = Some c' \<Longrightarrow> run ls c = Some c'"
  by (induction ls arbitrary: c) (auto split: option.splits if_splits)

lemma good_init: "good (init l n now)"
  by (simp add: good_def count_init traces_init lock_inv_def gen_inv_def safe_crash_def)

section \<open>Steps leave the other goroutines alone\<close>

lemma run_step_other:
  assumes "run_step t p c = Some c'" "v < length (threads c)" "v \<noteq> t"
  shows "threads c' ! v = threads c ! v"
  using assms
  by (cases p)
    (auto simp: Let_def nth_threads_goto make_chan_def split: if_splits option.splits sum.splits)

lemma call_step_other:
  assumes "call_step t k c = Some c'" "v < length (threads c)" "v \<noteq> t"
  shows "threads c' ! v = threads c ! v"
  using assms by (cases k) (auto simp: nth_threads_enter split: option.splits)

lemma fire_step_other:
  assumes "fire_step t p c = Some c'" "v < length (threads c)" "v \<noteq> t"
  shows "threads c' ! v = threads c ! v"
  using assms by (cases p) (auto simp: nth_threads_goto)

lemma send_step_other:
  assumes "send_step t u p q c = Some c'" "v < length (threads c)" "v \<noteq> t" "v \<noteq> u"
  shows "threads c' ! v = threads c ! v"
  using assms
  by (cases p) (auto simp: nth_threads_goto pc_wake_other split: if_splits)

lemma step_other:
  assumes "step lab c = Some c'" "v < length (threads c)"
    "\<And>k. lab \<noteq> Call v k" "lab \<noteq> Run v" "lab \<noteq> Fire v" "\<And>u. lab \<noteq> Send v u"
    "\<And>u. lab \<noteq> Send u v"
  shows "threads c' ! v = threads c ! v"
proof (cases lab)
  case (Call t k)
  then show ?thesis using assms call_step_other [of t k c c' v]
    by (auto simp: step_def split: if_splits)
next
  case (Run t)
  then show ?thesis using assms run_step_other [of t "pc (threads c ! t)" c c' v]
    by (auto simp: step_def split: if_splits)
next
  case (Fire t)
  then show ?thesis using assms fire_step_other [of t "pc (threads c ! t)" c c' v]
    by (auto simp: step_def split: if_splits)
next
  case (Send t u)
  then show ?thesis
    using assms send_step_other [of t u "pc (threads c ! t)" "pc (threads c ! u)" c c' v]
    by (auto simp: step_def split: if_splits)
next
  case (Tick x)
  then show ?thesis using assms by (auto simp: step_def split: if_splits)
qed

lemma run_append:
  "run (xs @ ys) c = (case run xs c of None \<Rightarrow> None | Some c' \<Rightarrow> run ys c')"
  by (induction xs arbitrary: c) (auto split: option.splits)

lemma run_snoc:
  "run (ls @ [lab]) c = Some c' \<longleftrightarrow> (\<exists>c1. run ls c = Some c1 \<and> step lab c1 = Some c')"
  by (auto simp: run_append split: option.splits)

lemma step_not_crashed: "step lab c = Some c' \<Longrightarrow> crashed c = None"
  by (auto simp: step_def split: if_splits)

lemma run_step_length:
  "run_step t p c = Some c' \<Longrightarrow> length (threads c') = length (threads c)"
  by (cases p) (auto simp: Let_def make_chan_def split: if_splits option.splits sum.splits)

lemma step_length:
  assumes "step lab c = Some c'"
  shows "length (threads c') = length (threads c)"
proof (cases lab)
  case (Call t k)
  then show ?thesis using assms
    by (cases k) (auto simp: step_def split: if_splits option.splits)
next
  case (Run t)
  then show ?thesis using assms run_step_length by (auto simp: step_def split: if_splits)
next
  case (Fire t)
  then show ?thesis using assms
    by (cases "pc (threads c ! t)") (auto simp: step_def split: if_splits)
next
  case (Send t u)
  then show ?thesis using assms
    by (cases "pc (threads c ! t)") (auto simp: step_def split: if_splits)
next
  case (Tick x)
  then show ?thesis using assms by (auto simp: step_def split: if_splits)
qed

lemma run_length:
  "run ls c = Some c' \<Longrightarrow> length (threads c') = length (threads c)"
  by (induction ls arbitrary: c) (auto split: option.splits dest: step_length)

lemma run_step_closed:
  "run_step t p c = Some c' \<Longrightarrow> closed (heap c) \<subseteq> closed (heap c')"
  by (cases p)
    (auto simp: Let_def make_chan_def close_chan_def split: if_splits option.splits sum.splits)

lemma step_closed:
  assumes "step lab c = Some c'"
  shows "closed (heap c) \<subseteq> closed (heap c')"
proof (cases lab)
  case (Call t k)
  then show ?thesis using assms
    by (cases k) (auto simp: step_def split: if_splits option.splits)
next
  case (Run t)
  then show ?thesis using assms run_step_closed [of t "pc (threads c ! t)" c c']
    by (auto simp: step_def split: if_splits)
next
  case (Fire t)
  then show ?thesis using assms
    by (cases "pc (threads c ! t)") (auto simp: step_def split: if_splits)
next
  case (Send t u)
  then show ?thesis using assms
    by (cases "pc (threads c ! t)") (auto simp: step_def split: if_splits)
next
  case (Tick x)
  then show ?thesis using assms by (auto simp: step_def split: if_splits)
qed

text \<open>Every step that changes goroutine \<open>t\<close> is a step of \<open>t\<close> itself or a send delivered to it.\<close>

lemma moved_cases:
  assumes "step lab c = Some c'" "t < length (threads c)" "threads c' ! t \<noteq> threads c ! t"
  shows "(\<exists>k. lab = Call t k \<and> pc (threads c ! t) = Idle \<and> call_step t k c = Some c') \<or>
         (lab = Run t \<and> run_step t (pc (threads c ! t)) c = Some c') \<or>
         (lab = Fire t \<and> fire_step t (pc (threads c ! t)) c = Some c') \<or>
         (\<exists>u ch. lab = Send t u \<and> pc (threads c ! t) = Signal_select ch) \<or>
         (\<exists>u ch. lab = Send u t \<and> u \<noteq> t \<and> u < length (threads c) \<and>
            pc (threads c ! u) = Signal_select ch \<and> ch \<notin> closed (heap c) \<and>
            parked_on ch (pc (threads c ! t)) \<and>
            c' = goto u Idle [EvSend ch t, EvReturn RUnit] (wake t (pc (threads c ! t)) c))"
proof -
  have nc: "crashed c = None" using assms(1) by (rule step_not_crashed)
  show ?thesis
  proof (cases lab)
    case (Call v k)
    show ?thesis
    proof (cases "v = t")
      case True
      then show ?thesis using assms(1) Call nc by (auto simp: step_def split: if_splits)
    next
      case False
      then show ?thesis using assms Call call_step_other [of v k c c' t]
        by (auto simp: step_def split: if_splits)
    qed
  next
    case (Run v)
    show ?thesis
    proof (cases "v = t")
      case True
      then show ?thesis using assms(1) Run nc by (auto simp: step_def split: if_splits)
    next
      case False
      then show ?thesis using assms Run run_step_other [of v "pc (threads c ! v)" c c' t]
        by (auto simp: step_def split: if_splits)
    qed
  next
    case (Fire v)
    show ?thesis
    proof (cases "v = t")
      case True
      then show ?thesis using assms(1) Fire nc by (auto simp: step_def split: if_splits)
    next
      case False
      then show ?thesis using assms Fire fire_step_other [of v "pc (threads c ! v)" c c' t]
        by (auto simp: step_def split: if_splits)
    qed
  next
    case (Send v u)
    from assms(1) Send nc have v: "v < length (threads c)" and u: "u < length (threads c)"
      and ss: "send_step v u (pc (threads c ! v)) (pc (threads c ! u)) c = Some c'"
      by (auto simp: step_def split: if_splits)
    from ss obtain ch where sel: "pc (threads c ! v) = Signal_select ch"
      by (cases "pc (threads c ! v)") auto
    show ?thesis
    proof (cases "v = t")
      case True
      then show ?thesis using Send sel by auto
    next
      case False
      show ?thesis
      proof (cases "u = t")
        case True
        have op: "ch \<notin> closed (heap c)"
        proof
          assume "ch \<in> closed (heap c)"
          then have "c' = die SendOnClosedChannel c" using ss sel by simp
          then show False using assms(3) by simp
        qed
        then have "parked_on ch (pc (threads c ! t))"
          and "c' = goto v Idle [EvSend ch t, EvReturn RUnit] (wake t (pc (threads c ! t)) c)"
          using ss sel True by (auto split: if_splits)
        then show ?thesis using Send True False v sel op by auto
      next
        case False
        then show ?thesis using send_step_other [OF ss assms(2) _ _] \<open>v \<noteq> t\<close> assms(3) by auto
      qed
    qed
  next
    case (Tick x)
    then show ?thesis using assms by (auto simp: step_def split: if_splits)
  qed
qed

section \<open>The claims about waiting\<close>

lemmas exec_simps = step_def goto_def enter_def die_def init_def NewTimeoutCond_def make_chan_def
  close_chan_def empty_heap_def addWaiter_def removeWaiter_def MaxUint64_def has_receiver_def
  HasWaiters_def Let_def


lemma Wait_seg_mono:
  "Wait_seg p dl cl es \<Longrightarrow> cl \<subseteq> cl' \<Longrightarrow> Wait_seg p dl cl' es"
  by (cases p) auto

lemma wake_changes:
  assumes "t < length (threads c)" "parked_on ch (pc (threads c ! t))" "u \<noteq> t"
  shows "pc (threads (goto u p evs (wake t (pc (threads c ! t)) c)) ! t) \<noteq> pc (threads c ! t)"
  using assms by (cases "pc (threads c ! t)") (auto simp: pc_goto Let_def)

lemma Wait_seg_step:
  assumes "traces_ok c" "t < length (threads c)"
    "Wait_seg (pc (threads c ! t)) dl (closed (heap c)) (trace (threads c ! t))"
    "step lab c = Some c'" "crashed c' = None" "\<And>k. lab \<noteq> Call t k"
  shows "Wait_seg (pc (threads c' ! t)) (dl \<or> (\<exists>u. lab = Send u t)) (closed (heap c'))
           (trace (threads c' ! t))"
proof (cases "threads c' ! t = threads c ! t")
  case True
  have ns: "\<not> (\<exists>u. lab = Send u t)"
  proof
    assume "\<exists>u. lab = Send u t"
    then obtain u where lab: "lab = Send u t" by blast
    have nc: "crashed c = None" using assms(4) by (rule step_not_crashed)
    from assms(4) lab nc have u: "u < length (threads c)"
      and ss: "send_step u t (pc (threads c ! u)) (pc (threads c ! t)) c = Some c'"
      by (auto simp: step_def split: if_splits)
    from ss obtain ch where sel: "pc (threads c ! u) = Signal_select ch"
      by (cases "pc (threads c ! u)") auto
    have "ch \<notin> closed (heap c)" using ss sel assms(5) by (auto split: if_splits)
    then have p: "parked_on ch (pc (threads c ! t))"
      and c': "c' = goto u Idle [EvSend ch t, EvReturn RUnit] (wake t (pc (threads c ! t)) c)"
      using ss sel by (auto split: if_splits)
    have "u \<noteq> t" using p sel by auto
    from wake_changes [OF assms(2) p this, of Idle "[EvSend ch t, EvReturn RUnit]"] True
    show False by (simp add: c')
  qed
  show ?thesis using True ns assms(3) Wait_seg_mono [OF _ step_closed [OF assms(4)]] by simp
next
  case False
  have cf: "conforms (pc (threads c ! t)) (trace (threads c ! t))"
    using traces_nth [OF assms(1,2)] .
  have sub: "closed (heap c) \<subseteq> closed (heap c')" using step_closed [OF assms(4)] .
  from moved_cases [OF assms(4,2) False] assms(6) consider
      (run) "lab = Run t" "run_step t (pc (threads c ! t)) c = Some c'"
    | (fire) "lab = Fire t" "fire_step t (pc (threads c ! t)) c = Some c'"
    | (sender) u ch where "lab = Send t u" "pc (threads c ! t) = Signal_select ch"
    | (recv) u ch where "lab = Send u t" "u \<noteq> t" "u < length (threads c)"
        "pc (threads c ! u) = Signal_select ch" "ch \<notin> closed (heap c)"
        "parked_on ch (pc (threads c ! t))"
        "c' = goto u Idle [EvSend ch t, EvReturn RUnit] (wake t (pc (threads c ! t)) c)"
    by blast
  then show ?thesis
  proof cases
    case run
    then show ?thesis using assms(2,3,5) cf sub
      by (cases "pc (threads c ! t)")
        (auto simp: Let_def pc_goto trace_goto removeWaiter_cases addWaiter_cases
          split: if_splits option.splits)
  next
    case fire
    then show ?thesis using assms(3) by (cases "pc (threads c ! t)") auto
  next
    case sender
    then show ?thesis using assms(3) by simp
  next
    case recv
    then have pk: "pc (threads c ! t) = Wait_parked ch"
      using assms(3) by (cases "pc (threads c ! t)") auto
    have "pc (threads c' ! t) = Wait_Lock ch False"
      using recv(2,7) assms(2) pk by (simp add: pc_goto Let_def)
    then show ?thesis using recv(1) by simp
  qed
qed

lemma Wait_segment:
  assumes "traces_ok c1" "t < length (threads c1)" "pc (threads c1 ! t) = Wait_addWaiter"
  shows "run ls c1 = Some c \<Longrightarrow> \<forall>k. Call t k \<notin> set ls \<Longrightarrow> crashed c = None \<Longrightarrow>
    Wait_seg (pc (threads c ! t)) (\<exists>u. Send u t \<in> set ls) (closed (heap c))
      (trace (threads c ! t))"
proof (induction ls arbitrary: c rule: rev_induct)
  case Nil
  then show ?case using assms by simp
next
  case (snoc lab ls)
  from snoc.prems(1) obtain c0 where r: "run ls c1 = Some c0" and s: "step lab c0 = Some c"
    by (auto simp: run_snoc)
  have nc: "crashed c0 = None" using s by (rule step_not_crashed)
  have nk: "\<forall>k. Call t k \<notin> set ls" and nl: "\<And>k. lab \<noteq> Call t k"
    using snoc.prems(2) by auto
  have ih: "Wait_seg (pc (threads c0 ! t)) (\<exists>u. Send u t \<in> set ls) (closed (heap c0))
      (trace (threads c0 ! t))"
    using snoc.IH [OF r nk nc] .
  have tr: "traces_ok c0" using traces_run [OF r assms(1)] .
  have len: "t < length (threads c0)" using run_length [OF r] assms(2) by simp
  have "Wait_seg (pc (threads c ! t)) ((\<exists>u. Send u t \<in> set ls) \<or> (\<exists>u. lab = Send u t))
      (closed (heap c)) (trace (threads c ! t))"
    using Wait_seg_step [OF tr len ih s snoc.prems(3) nl] .
  moreover have "((\<exists>u. Send u t \<in> set ls) \<or> (\<exists>u. lab = Send u t)) =
     (\<exists>u. Send u t \<in> set (ls @ [lab]))" by auto
  ultimately show ?case by simp
qed

lemma Wait_progress:
  assumes "count_inv c" "traces_ok c" "t < length (threads c)" "crashed c = None"
  shows "(pc (threads c ! t) = Wait_parked ch \<and> ch \<in> closed (heap c) \<longrightarrow>
            (\<exists>c'. step (Run t) c = Some c' \<and> crashed c' = None \<and>
               pc (threads c' ! t) = Wait_Lock ch True)) \<and>
         (pc (threads c ! t) = Wait_parked ch \<and> ch \<notin> closed (heap c) \<and>
          u < length (threads c) \<and> pc (threads c ! u) = Signal_select ch \<longrightarrow>
            (\<exists>c'. step (Send u t) c = Some c' \<and> crashed c' = None \<and>
               pc (threads c' ! t) = Wait_Lock ch False)) \<and>
         (pc (threads c ! t) = Wait_Lock ch r \<and> holder c = None \<longrightarrow>
            (\<exists>c'. step (Run t) c = Some c' \<and> crashed c' = None \<and>
               pc (threads c' ! t) = Wait_removeWaiter ch r)) \<and>
         (pc (threads c ! t) = Wait_removeWaiter ch r \<longrightarrow>
            (\<exists>c'. step (Run t) c = Some c' \<and> crashed c' = None \<and>
               pc (threads c' ! t) = Idle \<and>
               trace (threads c' ! t) =
                 [EvCall CWait, EvAddWaiter, EvCapture ch, EvUnlock, EvRecv ch (\<not> r), EvLock,
                  EvRemoveWaiter, EvReturn (RBool r)]))"
proof (intro conjI impI)
  assume "pc (threads c ! t) = Wait_parked ch \<and> ch \<in> closed (heap c)"
  then show "\<exists>c'. step (Run t) c = Some c' \<and> crashed c' = None \<and>
               pc (threads c' ! t) = Wait_Lock ch True"
    using assms(3,4) by (simp add: step_def pc_goto)
next
  assume a: "pc (threads c ! t) = Wait_parked ch \<and> ch \<notin> closed (heap c) \<and>
          u < length (threads c) \<and> pc (threads c ! u) = Signal_select ch"
  then have "u \<noteq> t" by auto
  then show "\<exists>c'. step (Send u t) c = Some c' \<and> crashed c' = None \<and>
               pc (threads c' ! t) = Wait_Lock ch False"
    using a assms(3,4) by (simp add: step_def pc_goto Let_def)
next
  assume "pc (threads c ! t) = Wait_Lock ch r \<and> holder c = None"
  then show "\<exists>c'. step (Run t) c = Some c' \<and> crashed c' = None \<and>
               pc (threads c' ! t) = Wait_removeWaiter ch r"
    using assms(3,4) by (simp add: step_def pc_goto)
next
  assume a: "pc (threads c ! t) = Wait_removeWaiter ch r"
  have nz: "hasWaiters (tcond c) \<noteq> 0" using count_nonzero [OF assms(1,3)] a by simp
  have "trace (threads c ! t) =
     [EvCall CWait, EvAddWaiter, EvCapture ch, EvUnlock, EvRecv ch (\<not> r), EvLock]"
    using traces_nth [OF assms(2,3)] a by simp
  then show "\<exists>c'. step (Run t) c = Some c' \<and> crashed c' = None \<and>
               pc (threads c' ! t) = Idle \<and>
               trace (threads c' ! t) =
                 [EvCall CWait, EvAddWaiter, EvCapture ch, EvUnlock, EvRecv ch (\<not> r), EvLock,
                  EvRemoveWaiter, EvReturn (RBool r)]"
    using a assms(3,4) nz by (simp add: step_def removeWaiter_cases pc_goto trace_goto)
qed

text \<open>
  Claim C1. Take any execution in which goroutine \<open>t\<close> has entered \<open>Wait\<close>, and any
  continuation \<open>ls\<close> in which it starts no other call and nothing panics. If the call has
  returned, the boolean \<open>r\<close> it returned is true exactly when no send of a \<open>Signal\<close> was
  delivered to \<open>t\<close> during the call, and then the generation it captured is closed in the
  heap (woken by close-all); it is false exactly when a send was delivered (woken by
  post-one). The same holds of the value held after the receive. The call makes progress:
  parked on a closed generation its receive completes with \<open>true\<close>, parked opposite a sender
  the send is delivered and gives \<open>false\<close>, the deferred \<open>Lock\<close> completes when the mutex is
  free, and \<open>removeWaiter\<close> returns without panic.
\<close>

theorem Wait_returns_wake_cause:
  assumes "run ls0 (init l n now) = Some c1" "t < length (threads c1)"
    "pc (threads c1 ! t) = Wait_addWaiter"
    "run ls c1 = Some c" "\<forall>k. Call t k \<notin> set ls" "crashed c = None"
  shows "(pc (threads c ! t) = Idle \<longrightarrow>
            (\<exists>ch r. trace (threads c ! t) =
                [EvCall CWait, EvAddWaiter, EvCapture ch, EvUnlock, EvRecv ch (\<not> r), EvLock,
                 EvRemoveWaiter, EvReturn (RBool r)] \<and>
              r = (\<forall>u. Send u t \<notin> set ls) \<and> (r \<longrightarrow> ch \<in> closed (heap c)))) \<and>
         (pc (threads c ! t) = Wait_Lock ch r \<or> pc (threads c ! t) = Wait_removeWaiter ch r \<longrightarrow>
            r = (\<forall>u. Send u t \<notin> set ls) \<and> (r \<longrightarrow> ch \<in> closed (heap c))) \<and>
         (pc (threads c ! t) = Wait_parked ch \<and> ch \<in> closed (heap c) \<longrightarrow>
            (\<exists>c'. step (Run t) c = Some c' \<and> crashed c' = None \<and>
               pc (threads c' ! t) = Wait_Lock ch True)) \<and>
         (pc (threads c ! t) = Wait_parked ch \<and> ch \<notin> closed (heap c) \<and>
          u < length (threads c) \<and> pc (threads c ! u) = Signal_select ch \<longrightarrow>
            (\<exists>c'. step (Send u t) c = Some c' \<and> crashed c' = None \<and>
               pc (threads c' ! t) = Wait_Lock ch False)) \<and>
         (pc (threads c ! t) = Wait_Lock ch r \<and> holder c = None \<longrightarrow>
            (\<exists>c'. step (Run t) c = Some c' \<and> crashed c' = None \<and>
               pc (threads c' ! t) = Wait_removeWaiter ch r)) \<and>
         (pc (threads c ! t) = Wait_removeWaiter ch r \<longrightarrow>
            (\<exists>c'. step (Run t) c = Some c' \<and> crashed c' = None \<and>
               pc (threads c' ! t) = Idle \<and>
               trace (threads c' ! t) =
                 [EvCall CWait, EvAddWaiter, EvCapture ch, EvUnlock, EvRecv ch (\<not> r), EvLock,
                  EvRemoveWaiter, EvReturn (RBool r)]))"
proof -
  have tr1: "traces_ok c1" using traces_run [OF assms(1) traces_init] .
  have ci1: "count_inv c1" using count_run [OF assms(1) count_init] .
  have tr: "traces_ok c" using traces_run [OF assms(4) tr1] .
  have ci: "count_inv c" using count_run [OF assms(4) ci1] .
  have len: "t < length (threads c)" using run_length [OF assms(4)] assms(2) by simp
  have seg: "Wait_seg (pc (threads c ! t)) (\<exists>u. Send u t \<in> set ls) (closed (heap c))
      (trace (threads c ! t))"
    using Wait_segment [OF tr1 assms(2,3) assms(4,5,6)] .
  have a: "pc (threads c ! t) = Idle \<longrightarrow>
            (\<exists>ch r. trace (threads c ! t) =
                [EvCall CWait, EvAddWaiter, EvCapture ch, EvUnlock, EvRecv ch (\<not> r), EvLock,
                 EvRemoveWaiter, EvReturn (RBool r)] \<and>
              r = (\<forall>u. Send u t \<notin> set ls) \<and> (r \<longrightarrow> ch \<in> closed (heap c)))"
    using seg by auto
  have b: "pc (threads c ! t) = Wait_Lock ch r \<or> pc (threads c ! t) = Wait_removeWaiter ch r \<longrightarrow>
            r = (\<forall>u. Send u t \<notin> set ls) \<and> (r \<longrightarrow> ch \<in> closed (heap c))"
    using seg by auto
  from a b Wait_progress [OF ci tr len assms(6), of ch u r] show ?thesis by blast
qed


theorem Wait_returns_wake_cause_witness:
  "(\<exists>c1 c. run sched_enter_Wait (init 0 2 0) = Some c1 \<and>
      pc (threads c1 ! 0) = Wait_addWaiter \<and>
      run sched_Wait_then_Interrupt c1 = Some c \<and> crashed c = None \<and>
      pc (threads c ! 0) = Idle \<and> (\<forall>u. Send u 0 \<notin> set sched_Wait_then_Interrupt) \<and>
      trace (threads c ! 0) =
        [EvCall CWait, EvAddWaiter, EvCapture 0, EvUnlock, EvRecv 0 False, EvLock,
         EvRemoveWaiter, EvReturn (RBool True)] \<and>
      0 \<in> closed (heap c)) \<and>
   (\<exists>c1 c. run sched_enter_Wait (init 0 2 0) = Some c1 \<and>
      pc (threads c1 ! 0) = Wait_addWaiter \<and>
      run sched_Wait_then_Signal c1 = Some c \<and> crashed c = None \<and>
      pc (threads c ! 0) = Idle \<and> Send 1 0 \<in> set sched_Wait_then_Signal \<and>
      trace (threads c ! 0) =
        [EvCall CWait, EvAddWaiter, EvCapture 0, EvUnlock, EvRecv 0 True, EvLock,
         EvRemoveWaiter, EvReturn (RBool False)] \<and>
      closed (heap c) = {})"
proof -
  have "\<exists>c1. run sched_enter_Wait (init 0 2 0) = Some c1 \<and> 0 < length (threads c1) \<and>
      pc (threads c1 ! 0) = Wait_addWaiter \<and>
      (\<exists>c. run sched_Wait_then_Interrupt c1 = Some c \<and> crashed c = None \<and>
         pc (threads c ! 0) = Idle \<and> hd (tl (tl (trace (threads c ! 0)))) = EvCapture 0) \<and>
      (\<exists>d. run sched_Wait_then_Signal c1 = Some d \<and> crashed d = None \<and>
         pc (threads d ! 0) = Idle \<and> hd (tl (tl (trace (threads d ! 0)))) = EvCapture 0 \<and>
         closed (heap d) = {})"
    by (simp add: sched_enter_Wait_def sched_Wait_then_Interrupt_def sched_Wait_then_Signal_def
        exec_simps)
  then obtain c1 c d where c1: "run sched_enter_Wait (init 0 2 0) = Some c1"
    "0 < length (threads c1)" "pc (threads c1 ! 0) = Wait_addWaiter"
    and c: "run sched_Wait_then_Interrupt c1 = Some c" "crashed c = None"
      "pc (threads c ! 0) = Idle" "hd (tl (tl (trace (threads c ! 0)))) = EvCapture 0"
    and d: "run sched_Wait_then_Signal c1 = Some d" "crashed d = None"
      "pc (threads d ! 0) = Idle" "hd (tl (tl (trace (threads d ! 0)))) = EvCapture 0"
      "closed (heap d) = {}"
    by blast
  have nc: "\<forall>k. Call 0 k \<notin> set sched_Wait_then_Interrupt"
    by (simp add: sched_Wait_then_Interrupt_def)
  have ns: "\<forall>u. Send u 0 \<notin> set sched_Wait_then_Interrupt"
    by (simp add: sched_Wait_then_Interrupt_def)
  from Wait_returns_wake_cause [OF c1 c(1) nc c(2)] c(3) ns
  obtain ch where "trace (threads c ! 0) =
      [EvCall CWait, EvAddWaiter, EvCapture ch, EvUnlock, EvRecv ch False, EvLock,
       EvRemoveWaiter, EvReturn (RBool True)]" "ch \<in> closed (heap c)"
    by auto
  with c(4) have a: "trace (threads c ! 0) =
      [EvCall CWait, EvAddWaiter, EvCapture 0, EvUnlock, EvRecv 0 False, EvLock,
       EvRemoveWaiter, EvReturn (RBool True)]" "0 \<in> closed (heap c)"
    by auto
  have nd: "\<forall>k. Call 0 k \<notin> set sched_Wait_then_Signal"
    by (simp add: sched_Wait_then_Signal_def)
  have sd: "Send 1 0 \<in> set sched_Wait_then_Signal"
    by (simp add: sched_Wait_then_Signal_def)
  then have "\<not> (\<forall>u. Send u 0 \<notin> set sched_Wait_then_Signal)" by blast
  with Wait_returns_wake_cause [OF c1 d(1) nd d(2)] d(3)
  obtain ch' where "trace (threads d ! 0) =
      [EvCall CWait, EvAddWaiter, EvCapture ch', EvUnlock, EvRecv ch' True, EvLock,
       EvRemoveWaiter, EvReturn (RBool False)]"
    by auto
  with d(4) have b: "trace (threads d ! 0) =
      [EvCall CWait, EvAddWaiter, EvCapture 0, EvUnlock, EvRecv 0 True, EvLock,
       EvRemoveWaiter, EvReturn (RBool False)]"
    by auto
  show ?thesis using c1 c d a b ns sd by blast
qed



lemma sint_sub_in_range:
  fixes a b :: int64
  assumes "- (2 ^ 63) \<le> sint a - sint b" "sint a - sint b < 2 ^ 63"
  shows "sint (a - b) = sint a - sint b"
proof -
  have "sint (a - b) = signed_take_bit 63 (sint a - sint b)"
    by (simp add: sint_word_ariths)
  also have "\<dots> = sint a - sint b"
    using assms by (simp add: signed_take_bit_int_eq_self)
  finally show ?thesis .
qed


lemma WT_seg_recv_mono:
  "WT_seg_recv p d ch b dl cl \<Longrightarrow> cl \<subseteq> cl' \<Longrightarrow> WT_seg_recv p d ch b dl cl'"
  by (cases p) auto

lemma send_to_unparked:
  assumes "step (Send u t) c = Some c'" "crashed c' = None" "t < length (threads c)"
  shows "\<exists>ch. parked_on ch (pc (threads c ! t)) \<and> threads c' ! t \<noteq> threads c ! t"
proof -
  have nc: "crashed c = None" using assms(1) by (rule step_not_crashed)
  from assms(1) nc have u: "u < length (threads c)"
    and ss: "send_step u t (pc (threads c ! u)) (pc (threads c ! t)) c = Some c'"
    by (auto simp: step_def split: if_splits)
  from ss obtain ch where sel: "pc (threads c ! u) = Signal_select ch"
    by (cases "pc (threads c ! u)") auto
  have "ch \<notin> closed (heap c)" using ss sel assms(2) by (auto split: if_splits)
  then have p: "parked_on ch (pc (threads c ! t))"
    and c': "c' = goto u Idle [EvSend ch t, EvReturn RUnit] (wake t (pc (threads c ! t)) c)"
    using ss sel by (auto split: if_splits)
  have "u \<noteq> t" using p sel by auto
  from wake_changes [OF assms(3) p this, of Idle "[EvSend ch t, EvReturn RUnit]"]
  have "threads c' ! t \<noteq> threads c ! t" by (auto simp: c')
  with p show ?thesis by blast
qed

lemma WT_seg_recv_step:
  assumes "t < length (threads c)"
    "WT_seg_recv (pc (threads c ! t)) d ch b dl (closed (heap c))"
    "step lab c = Some c'" "crashed c' = None" "\<And>k. lab \<noteq> Call t k"
  shows "WT_seg_recv (pc (threads c' ! t)) d ch b (dl \<or> (\<exists>u. lab = Send u t)) (closed (heap c'))"
proof (cases "threads c' ! t = threads c ! t")
  case True
  have ns: "\<not> (\<exists>u. lab = Send u t)"
    using send_to_unparked [OF _ assms(4,1)] assms(3) True by blast
  show ?thesis using True ns assms(2) WT_seg_recv_mono [OF _ step_closed [OF assms(3)]] by simp
next
  case False
  have sub: "closed (heap c) \<subseteq> closed (heap c')" using step_closed [OF assms(3)] .
  from moved_cases [OF assms(3,1) False] assms(5) consider
      (run) "lab = Run t" "run_step t (pc (threads c ! t)) c = Some c'"
    | (fire) "lab = Fire t" "fire_step t (pc (threads c ! t)) c = Some c'"
    | (sender) u ch where "lab = Send t u" "pc (threads c ! t) = Signal_select ch"
    | (recv) u ch' where "lab = Send u t" "u \<noteq> t" "u < length (threads c)"
        "pc (threads c ! u) = Signal_select ch'" "ch' \<notin> closed (heap c)"
        "parked_on ch' (pc (threads c ! t))"
        "c' = goto u Idle [EvSend ch' t, EvReturn RUnit] (wake t (pc (threads c ! t)) c)"
    by blast
  then show ?thesis
  proof cases
    case run
    then show ?thesis using assms(1,2,4) sub
      by (cases "pc (threads c ! t)")
        (auto simp: Let_def pc_goto removeWaiter_cases split: if_splits option.splits)
  next
    case fire
    then show ?thesis using assms(1,2) by (cases "pc (threads c ! t)") (auto simp: pc_goto)
  next
    case sender
    then show ?thesis using assms(2) by simp
  next
    case recv
    from recv(6) assms(2) obtain pk: "pc (threads c ! t) = WT_parked d ch b" and "ch' = ch"
      and "\<not> dl"
      by (cases "pc (threads c ! t)") auto
    have "pc (threads c' ! t) = WT_end d ch b True"
      using recv(2,7) assms(1) pk by (simp add: pc_goto)
    then show ?thesis using recv(1) by simp
  qed
qed

lemma WT_segment_recv:
  assumes "t < length (threads c2)" "pc (threads c2 ! t) = WT_select d ch b"
  shows "run ls c2 = Some c \<Longrightarrow> \<forall>k. Call t k \<notin> set ls \<Longrightarrow> crashed c = None \<Longrightarrow>
    WT_seg_recv (pc (threads c ! t)) d ch b (\<exists>u. Send u t \<in> set ls) (closed (heap c))"
proof (induction ls arbitrary: c rule: rev_induct)
  case Nil
  then show ?case using assms by simp
next
  case (snoc lab ls)
  from snoc.prems(1) obtain c0 where r: "run ls c2 = Some c0" and s: "step lab c0 = Some c"
    by (auto simp: run_snoc)
  have nc: "crashed c0 = None" using s by (rule step_not_crashed)
  have nk: "\<forall>k. Call t k \<notin> set ls" and nl: "\<And>k. lab \<noteq> Call t k"
    using snoc.prems(2) by auto
  have ih: "WT_seg_recv (pc (threads c0 ! t)) d ch b (\<exists>u. Send u t \<in> set ls) (closed (heap c0))"
    using snoc.IH [OF r nk nc] .
  have len: "t < length (threads c0)" using run_length [OF r] assms(1) by simp
  have "WT_seg_recv (pc (threads c ! t)) d ch b
      ((\<exists>u. Send u t \<in> set ls) \<or> (\<exists>u. lab = Send u t)) (closed (heap c))"
    using WT_seg_recv_step [OF len ih s snoc.prems(3) nl] .
  moreover have "((\<exists>u. Send u t \<in> set ls) \<or> (\<exists>u. lab = Send u t)) =
     (\<exists>u. Send u t \<in> set (ls @ [lab]))" by auto
  ultimately show ?case by simp
qed

lemma WT_seg_ret_step:
  assumes "t < length (threads c)"
    "WT_seg_ret (pc (threads c ! t)) r es0 (trace (threads c ! t))"
    "step lab c = Some c'" "crashed c' = None" "\<And>k. lab \<noteq> Call t k"
  shows "WT_seg_ret (pc (threads c' ! t)) r es0 (trace (threads c' ! t))"
proof (cases "threads c' ! t = threads c ! t")
  case True
  then show ?thesis using assms(2) by simp
next
  case False
  from moved_cases [OF assms(3,1) False] assms(5) consider
      (run) "lab = Run t" "run_step t (pc (threads c ! t)) c = Some c'"
    | (fire) "lab = Fire t" "fire_step t (pc (threads c ! t)) c = Some c'"
    | (sender) u ch where "lab = Send t u" "pc (threads c ! t) = Signal_select ch"
    | (recv) u ch' where "lab = Send u t" "parked_on ch' (pc (threads c ! t))"
    by blast
  then show ?thesis
  proof cases
    case run
    then show ?thesis using assms(1,2,4)
      by (cases "pc (threads c ! t)")
        (auto simp: Let_def pc_goto trace_goto removeWaiter_cases split: if_splits option.splits)
  next
    case fire
    then show ?thesis using assms(1,2) by (cases "pc (threads c ! t)") (auto simp: pc_goto)
  next
    case sender
    then show ?thesis using assms(2) by simp
  next
    case recv
    then show ?thesis using assms(2) by (cases "pc (threads c ! t)") auto
  qed
qed

lemma WT_segment_ret:
  assumes "t < length (threads c4)" "pc (threads c4 ! t) = WT_Lock d ch b r"
  shows "run ls c4 = Some c \<Longrightarrow> \<forall>k. Call t k \<notin> set ls \<Longrightarrow> crashed c = None \<Longrightarrow>
    WT_seg_ret (pc (threads c ! t)) r (trace (threads c4 ! t)) (trace (threads c ! t))"
proof (induction ls arbitrary: c rule: rev_induct)
  case Nil
  then show ?case using assms by simp
next
  case (snoc lab ls)
  from snoc.prems(1) obtain c0 where r: "run ls c4 = Some c0" and s: "step lab c0 = Some c"
    by (auto simp: run_snoc)
  have nc: "crashed c0 = None" using s by (rule step_not_crashed)
  have nk: "\<forall>k. Call t k \<notin> set ls" and nl: "\<And>k. lab \<noteq> Call t k"
    using snoc.prems(2) by auto
  have ih: "WT_seg_ret (pc (threads c0 ! t)) r (trace (threads c4 ! t)) (trace (threads c0 ! t))"
    using snoc.IH [OF r nk nc] .
  have len: "t < length (threads c0)" using run_length [OF r] assms(1) by simp
  show ?case using WT_seg_ret_step [OF len ih s snoc.prems(3) nl] .
qed

text \<open>
  Claim C2. Take any execution in which goroutine \<open>t\<close> is about to read the start timestamp
  of \<open>WaitWithTimeout(timeout)\<close> in state \<open>c1\<close>, later is about to read the end timestamp in
  state \<open>c3\<close> because its \<open>select\<close> took the receive, and runs on without panic. Then the
  receive was on the channel captured, \<open>ok\<close> is true exactly when a send of a \<open>Signal\<close> was
  delivered to \<open>t\<close> in between, and otherwise the generation is closed; and the call
  returns \<open>timeout - (clock c3 - clock c1)\<close>, in \<open>int64\<close> and unclamped, with the interrupted
  flag \<open>\<not> ok\<close>. Where the differences fit \<open>int64\<close> this is the integer
  \<open>timeout - (end - begin)\<close>, of any sign. The deferred calls make progress as in \<open>Wait\<close>.
\<close>

theorem WaitWithTimeout_returns_remaining:
  assumes "run ls0 (init l n now) = Some c1" "t < length (threads c1)"
    "pc (threads c1 ! t) = WT_begin timeout ch"
    "step (Run t) c1 = Some c2"
    "run ls1 c2 = Some c3" "\<forall>k. Call t k \<notin> set ls1"
    "pc (threads c3 ! t) = WT_end timeout' ch' begin_t ok"
    "step (Run t) c3 = Some c4"
    "run ls2 c4 = Some c" "\<forall>k. Call t k \<notin> set ls2" "crashed c = None"
  shows "timeout' = timeout \<and> ch' = ch \<and> begin_t = clock c1 \<and>
         ok = (\<exists>u. Send u t \<in> set ls1) \<and> (\<not> ok \<longrightarrow> ch \<in> closed (heap c3)) \<and>
         (pc (threads c ! t) = Idle \<longrightarrow>
            trace (threads c ! t) =
              [EvCall (CWaitWithTimeout timeout), EvAddWaiter, EvCapture ch, EvUnlock,
               EvNow (clock c1), EvRecv ch ok, EvNow (clock c3), EvLock, EvRemoveWaiter,
               EvReturn (RDur (timeout - (clock c3 - clock c1)) (\<not> ok))]) \<and>
         (pc (threads c ! t) = WT_Lock d'' ch'' b'' r \<and> holder c = None \<longrightarrow>
            r = (timeout - (clock c3 - clock c1), \<not> ok) \<and>
            (\<exists>c'. step (Run t) c = Some c' \<and> crashed c' = None \<and>
               pc (threads c' ! t) = WT_removeWaiter d'' ch'' b'' r)) \<and>
         (pc (threads c ! t) = WT_removeWaiter d'' ch'' b'' r \<longrightarrow>
            r = (timeout - (clock c3 - clock c1), \<not> ok) \<and>
            (\<exists>c'. step (Run t) c = Some c' \<and> crashed c' = None \<and>
               pc (threads c' ! t) = Idle \<and>
               last (trace (threads c' ! t)) = EvReturn (RDur (fst r) (snd r)))) \<and>
         (- (2 ^ 63) \<le> sint (clock c3) - sint (clock c1) \<and>
          sint (clock c3) - sint (clock c1) < 2 ^ 63 \<and>
          - (2 ^ 63) \<le> sint timeout - (sint (clock c3) - sint (clock c1)) \<and>
          sint timeout - (sint (clock c3) - sint (clock c1)) < 2 ^ 63 \<longrightarrow>
            sint (timeout - (clock c3 - clock c1)) =
              sint timeout - (sint (clock c3) - sint (clock c1)))"
proof -
  have tr1: "traces_ok c1" using traces_run [OF assms(1) traces_init] .
  have ci1: "count_inv c1" using count_run [OF assms(1) count_init] .
  have nc1: "crashed c1 = None" using assms(4) by (rule step_not_crashed)
  have t1: "trace (threads c1 ! t) =
      [EvCall (CWaitWithTimeout timeout), EvAddWaiter, EvCapture ch, EvUnlock]"
    using traces_nth [OF tr1 assms(2)] assms(3) by simp
  have c2: "c2 = goto t (WT_select timeout ch (clock c1)) [EvNow (clock c1)] c1"
    using assms(2,3,4) nc1 by (simp add: step_def Let_def)
  have len2: "t < length (threads c2)" using assms(2) by (simp add: c2)
  have p2: "pc (threads c2 ! t) = WT_select timeout ch (clock c1)"
    using assms(2) by (simp add: c2 pc_goto)
  have tr2: "traces_ok c2" using traces_step [OF tr1 assms(4)] .
  have ci2: "count_inv c2" using count_step [OF ci1 assms(4)] .
  have nc3: "crashed c3 = None" using assms(8) by (rule step_not_crashed)
  have seg: "WT_seg_recv (pc (threads c3 ! t)) timeout ch (clock c1) (\<exists>u. Send u t \<in> set ls1)
      (closed (heap c3))"
    using WT_segment_recv [OF len2 p2 assms(5,6) nc3] .
  then have e: "timeout' = timeout" "ch' = ch" "begin_t = clock c1"
    "ok = (\<exists>u. Send u t \<in> set ls1)" "\<not> ok \<longrightarrow> ch \<in> closed (heap c3)"
    using assms(7) by simp_all
  have len3: "t < length (threads c3)" using run_length [OF assms(5)] len2 by simp
  have tr3: "traces_ok c3" using traces_run [OF assms(5) tr2] .
  have ci3: "count_inv c3" using count_run [OF assms(5) ci2] .
  have t3: "trace (threads c3 ! t) = WT_prefix timeout ch (clock c1) @ [EvRecv ch ok]"
    using traces_nth [OF tr3 len3] assms(7) e by simp
  let ?r = "(timeout - (clock c3 - clock c1), \<not> ok)"
  have c4: "c4 = goto t (WT_Lock timeout ch (clock c1) ?r) [EvNow (clock c3)] c3"
    using len3 assms(7,8) nc3 e by (simp add: step_def Let_def)
  have len4: "t < length (threads c4)" using len3 by (simp add: c4)
  have p4: "pc (threads c4 ! t) = WT_Lock timeout ch (clock c1) ?r"
    using len3 by (simp add: c4 pc_goto)
  have t4: "trace (threads c4 ! t) =
      WT_prefix timeout ch (clock c1) @ [EvRecv ch ok, EvNow (clock c3)]"
    using len3 t3 by (simp add: c4 trace_goto)
  have ci4: "count_inv c4" using count_step [OF ci3 assms(8)] .
  have tr4: "traces_ok c4" using traces_step [OF tr3 assms(8)] .
  have ci: "count_inv c" using count_run [OF assms(9) ci4] .
  have len: "t < length (threads c)" using run_length [OF assms(9)] len4 by simp
  have ret: "WT_seg_ret (pc (threads c ! t)) ?r (trace (threads c4 ! t)) (trace (threads c ! t))"
    using WT_segment_ret [OF len4 p4 assms(9,10,11)] .
  have a: "pc (threads c ! t) = Idle \<longrightarrow>
            trace (threads c ! t) =
              [EvCall (CWaitWithTimeout timeout), EvAddWaiter, EvCapture ch, EvUnlock,
               EvNow (clock c1), EvRecv ch ok, EvNow (clock c3), EvLock, EvRemoveWaiter,
               EvReturn (RDur (timeout - (clock c3 - clock c1)) (\<not> ok))]"
    using ret t4 by (auto simp: WT_prefix_def)
  have b: "pc (threads c ! t) = WT_Lock d'' ch'' b'' r \<and> holder c = None \<longrightarrow>
            r = ?r \<and>
            (\<exists>c'. step (Run t) c = Some c' \<and> crashed c' = None \<and>
               pc (threads c' ! t) = WT_removeWaiter d'' ch'' b'' r)"
    using ret len assms(11) by (auto simp: step_def pc_goto)
  have nz: "pc (threads c ! t) = WT_removeWaiter d'' ch'' b'' r \<Longrightarrow> hasWaiters (tcond c) \<noteq> 0"
    using count_nonzero [OF ci len] by simp
  have d: "pc (threads c ! t) = WT_removeWaiter d'' ch'' b'' r \<longrightarrow>
            r = ?r \<and>
            (\<exists>c'. step (Run t) c = Some c' \<and> crashed c' = None \<and>
               pc (threads c' ! t) = Idle \<and>
               last (trace (threads c' ! t)) = EvReturn (RDur (fst r) (snd r)))"
    using ret len assms(11) nz
    by (auto simp: step_def pc_goto trace_goto removeWaiter_cases)
  have rng: "- (2 ^ 63) \<le> sint (clock c3) - sint (clock c1) \<and>
          sint (clock c3) - sint (clock c1) < 2 ^ 63 \<and>
          - (2 ^ 63) \<le> sint timeout - (sint (clock c3) - sint (clock c1)) \<and>
          sint timeout - (sint (clock c3) - sint (clock c1)) < 2 ^ 63 \<longrightarrow>
            sint (timeout - (clock c3 - clock c1)) =
              sint timeout - (sint (clock c3) - sint (clock c1))"
    by (simp add: sint_sub_in_range)
  from e a b d rng show ?thesis by blast
qed


theorem WaitWithTimeout_returns_remaining_witness:
  "(\<exists>c1 c2 c3 c4 c. run sched_enter_WT (init 0 2 0) = Some c1 \<and>
      pc (threads c1 ! 0) = WT_begin 100 0 \<and> clock c1 = 1000 \<and>
      step (Run 0) c1 = Some c2 \<and> run sched_WT_Signal_late c2 = Some c3 \<and>
      pc (threads c3 ! 0) = WT_end 100 0 1000 True \<and> clock c3 = 1250 \<and>
      Send 1 0 \<in> set sched_WT_Signal_late \<and>
      step (Run 0) c3 = Some c4 \<and> run sched_WT_return c4 = Some c \<and> crashed c = None \<and>
      pc (threads c ! 0) = Idle \<and>
      trace (threads c ! 0) =
        [EvCall (CWaitWithTimeout 100), EvAddWaiter, EvCapture 0, EvUnlock, EvNow 1000,
         EvRecv 0 True, EvNow 1250, EvLock, EvRemoveWaiter, EvReturn (RDur (- 150) False)] \<and>
      sint (100 - (1250 - 1000) :: int64) = - 150) \<and>
   (\<exists>c1 c2 c3 c4 c. run sched_enter_WT (init 0 2 0) = Some c1 \<and>
      pc (threads c1 ! 0) = WT_begin 100 0 \<and> clock c1 = 1000 \<and>
      step (Run 0) c1 = Some c2 \<and> run sched_WT_Interrupt c2 = Some c3 \<and>
      pc (threads c3 ! 0) = WT_end 100 0 1000 False \<and> clock c3 = 1040 \<and>
      (\<forall>u. Send u 0 \<notin> set sched_WT_Interrupt) \<and> 0 \<in> closed (heap c3) \<and>
      step (Run 0) c3 = Some c4 \<and> run [Run 0, Run 0] c4 = Some c \<and> crashed c = None \<and>
      pc (threads c ! 0) = Idle \<and>
      trace (threads c ! 0) =
        [EvCall (CWaitWithTimeout 100), EvAddWaiter, EvCapture 0, EvUnlock, EvNow 1000,
         EvRecv 0 False, EvNow 1040, EvLock, EvRemoveWaiter, EvReturn (RDur 60 True)] \<and>
      sint (100 - (1040 - 1000) :: int64) = 60)"
proof -
  have "\<exists>c1 c2. run sched_enter_WT (init 0 2 0) = Some c1 \<and> 0 < length (threads c1) \<and>
      pc (threads c1 ! 0) = WT_begin 100 0 \<and> clock c1 = 1000 \<and> step (Run 0) c1 = Some c2 \<and>
      (\<exists>c3 c4 c. run sched_WT_Signal_late c2 = Some c3 \<and>
         pc (threads c3 ! 0) = WT_end 100 0 1000 True \<and> clock c3 = 1250 \<and>
         step (Run 0) c3 = Some c4 \<and> run sched_WT_return c4 = Some c \<and> crashed c = None \<and>
         pc (threads c ! 0) = Idle) \<and>
      (\<exists>d3 d4 d. run sched_WT_Interrupt c2 = Some d3 \<and>
         pc (threads d3 ! 0) = WT_end 100 0 1000 False \<and> clock d3 = 1040 \<and>
         step (Run 0) d3 = Some d4 \<and> run [Run 0, Run 0] d4 = Some d \<and> crashed d = None \<and>
         pc (threads d ! 0) = Idle)"
    by (simp add: sched_enter_WT_def sched_WT_Signal_late_def sched_WT_Interrupt_def
        sched_WT_return_def exec_simps)
  then obtain c1 c2 c3 c4 c d3 d4 d where
    c1: "run sched_enter_WT (init 0 2 0) = Some c1" "0 < length (threads c1)"
      "pc (threads c1 ! 0) = WT_begin 100 0"
    and k1: "clock c1 = 1000"
    and c2: "step (Run 0) c1 = Some c2"
    and c3: "run sched_WT_Signal_late c2 = Some c3"
    and p3: "pc (threads c3 ! 0) = WT_end 100 0 1000 True" and k3: "clock c3 = 1250"
    and c4: "step (Run 0) c3 = Some c4" and c: "run sched_WT_return c4 = Some c"
    and nc: "crashed c = None" and pi: "pc (threads c ! 0) = Idle"
    and d3: "run sched_WT_Interrupt c2 = Some d3"
    and q3: "pc (threads d3 ! 0) = WT_end 100 0 1000 False" and j3: "clock d3 = 1040"
    and d4: "step (Run 0) d3 = Some d4" and d: "run [Run 0, Run 0] d4 = Some d"
    and nd: "crashed d = None" and qi: "pc (threads d ! 0) = Idle"
    by blast
  have n1: "\<forall>k. Call 0 k \<notin> set sched_WT_Signal_late" by (simp add: sched_WT_Signal_late_def)
  have n2: "\<forall>k. Call 0 k \<notin> set sched_WT_return" by (simp add: sched_WT_return_def)
  have s1: "Send 1 0 \<in> set sched_WT_Signal_late" by (simp add: sched_WT_Signal_late_def)
  have a: "trace (threads c ! 0) =
        [EvCall (CWaitWithTimeout 100), EvAddWaiter, EvCapture 0, EvUnlock, EvNow 1000,
         EvRecv 0 True, EvNow 1250, EvLock, EvRemoveWaiter, EvReturn (RDur (- 150) False)] \<and>
      sint (100 - (1250 - 1000) :: int64) = - 150"
    using WaitWithTimeout_returns_remaining [OF c1 c2 c3 n1 p3 c4 c n2 nc] pi k1 k3 by simp
  have m1: "\<forall>k. Call 0 k \<notin> set sched_WT_Interrupt" by (simp add: sched_WT_Interrupt_def)
  have m2: "\<forall>k. Call 0 k \<notin> set [Run 0, Run 0]" by simp
  have s2: "\<forall>u. Send u 0 \<notin> set sched_WT_Interrupt" by (simp add: sched_WT_Interrupt_def)
  have b: "trace (threads d ! 0) =
        [EvCall (CWaitWithTimeout 100), EvAddWaiter, EvCapture 0, EvUnlock, EvNow 1000,
         EvRecv 0 False, EvNow 1040, EvLock, EvRemoveWaiter, EvReturn (RDur 60 True)] \<and>
      sint (100 - (1040 - 1000) :: int64) = 60 \<and> 0 \<in> closed (heap d3)"
    using WaitWithTimeout_returns_remaining [OF c1 c2 d3 m1 q3 d4 d m2 nd] qi k1 j3 by simp
  show ?thesis
    using c1 k1 c2 c3 p3 k3 s1 c4 c nc pi a d3 q3 j3 s2 d4 d nd qi b by blast
qed






section \<open>The order of the steps of Wait\<close>

lemma Wait_own_steps:
  assumes "traces_ok c" "t < length (threads c)"
    "Wait_seg (pc (threads c ! t)) dl (closed (heap c)) (trace (threads c ! t))"
    "step lab c = Some c'" "crashed c' = None" "threads c' ! t \<noteq> threads c ! t"
    "\<And>k. lab \<noteq> Call t k"
  shows
    "(pc (threads c ! t) = Wait_addWaiter \<and> lab = Run t \<and>
        pc (threads c' ! t) = Wait_capture \<and>
        hasWaiters (tcond c') = hasWaiters (tcond c) + 1 \<and> holder c' = holder c \<and>
        trace (threads c' ! t) = trace (threads c ! t) @ [EvAddWaiter]) \<or>
     (pc (threads c ! t) = Wait_capture \<and> lab = Run t \<and>
        pc (threads c' ! t) = Wait_Unlock (signal (tcond c)) \<and>
        tcond c' = tcond c \<and> holder c' = holder c \<and>
        trace (threads c' ! t) = trace (threads c ! t) @ [EvCapture (signal (tcond c))]) \<or>
     (\<exists>ch. pc (threads c ! t) = Wait_Unlock ch \<and> lab = Run t \<and>
        pc (threads c' ! t) = Wait_recv ch \<and>
        tcond c' = tcond c \<and> holder c \<noteq> None \<and> holder c' = None \<and>
        trace (threads c' ! t) = trace (threads c ! t) @ [EvUnlock]) \<or>
     (\<exists>ch. pc (threads c ! t) = Wait_recv ch \<and> lab = Run t \<and> ch \<notin> closed (heap c) \<and>
        pc (threads c' ! t) = Wait_parked ch \<and>
        tcond c' = tcond c \<and> holder c' = holder c \<and>
        trace (threads c' ! t) = trace (threads c ! t)) \<or>
     (\<exists>ch. (pc (threads c ! t) = Wait_recv ch \<or> pc (threads c ! t) = Wait_parked ch) \<and>
        lab = Run t \<and> ch \<in> closed (heap c) \<and>
        pc (threads c' ! t) = Wait_Lock ch True \<and>
        tcond c' = tcond c \<and> holder c' = holder c \<and>
        trace (threads c' ! t) = trace (threads c ! t) @ [EvRecv ch False]) \<or>
     (\<exists>ch u. pc (threads c ! t) = Wait_parked ch \<and> lab = Send u t \<and>
        ch \<notin> closed (heap c) \<and>
        pc (threads c' ! t) = Wait_Lock ch False \<and>
        tcond c' = tcond c \<and> holder c' = holder c \<and>
        trace (threads c' ! t) = trace (threads c ! t) @ [EvRecv ch True]) \<or>
     (\<exists>ch r. pc (threads c ! t) = Wait_Lock ch r \<and> lab = Run t \<and>
        pc (threads c' ! t) = Wait_removeWaiter ch r \<and>
        tcond c' = tcond c \<and> holder c = None \<and> holder c' = Some t \<and>
        trace (threads c' ! t) = trace (threads c ! t) @ [EvLock]) \<or>
     (\<exists>ch r. pc (threads c ! t) = Wait_removeWaiter ch r \<and> lab = Run t \<and>
        pc (threads c' ! t) = Idle \<and>
        hasWaiters (tcond c') = hasWaiters (tcond c) - 1 \<and> holder c' = holder c \<and>
        trace (threads c' ! t) =
          [EvCall CWait, EvAddWaiter, EvCapture ch, EvUnlock, EvRecv ch (\<not> r), EvLock,
           EvRemoveWaiter, EvReturn (RBool r)])"
proof -
  have cf: "conforms (pc (threads c ! t)) (trace (threads c ! t))"
    using traces_nth [OF assms(1,2)] .
  from moved_cases [OF assms(4,2,6)] assms(7) consider
      (run) "lab = Run t" "run_step t (pc (threads c ! t)) c = Some c'"
    | (fire) "lab = Fire t" "fire_step t (pc (threads c ! t)) c = Some c'"
    | (sender) u ch where "lab = Send t u" "pc (threads c ! t) = Signal_select ch"
    | (recv) u ch where "lab = Send u t" "u \<noteq> t" "u < length (threads c)"
        "pc (threads c ! u) = Signal_select ch" "ch \<notin> closed (heap c)"
        "parked_on ch (pc (threads c ! t))"
        "c' = goto u Idle [EvSend ch t, EvReturn RUnit] (wake t (pc (threads c ! t)) c)"
    by blast
  then show ?thesis
  proof cases
    case run
    show ?thesis
    proof (cases "pc (threads c ! t)")
      case Wait_addWaiter
      then show ?thesis using run assms(2,5)
        by (auto simp: addWaiter_cases pc_goto trace_goto split: if_splits)
    next
      case Wait_capture
      then show ?thesis using run assms(2) by (auto simp: Let_def pc_goto trace_goto)
    next
      case (Wait_Unlock ch)
      then show ?thesis using run assms(2,5)
        by (auto simp: pc_goto trace_goto split: option.splits)
    next
      case (Wait_recv ch)
      then show ?thesis using run assms(2)
        by (auto simp: Let_def pc_goto trace_goto split: if_splits)
    next
      case (Wait_parked ch)
      then show ?thesis using run assms(2)
        by (auto simp: Let_def pc_goto trace_goto split: if_splits)
    next
      case (Wait_Lock ch r)
      then show ?thesis using run assms(2)
        by (auto simp: pc_goto trace_goto split: option.splits)
    next
      case (Wait_removeWaiter ch r)
      then show ?thesis using run assms(2,5) cf
        by (auto simp: removeWaiter_cases pc_goto trace_goto split: if_splits)
    qed (use assms(3) run in auto)
  next
    case fire
    then show ?thesis using assms(3) by (cases "pc (threads c ! t)") auto
  next
    case sender
    then show ?thesis using assms(3) by simp
  next
    case recv
    then have pk: "pc (threads c ! t) = Wait_parked ch"
      using assms(3) by (cases "pc (threads c ! t)") auto
    have "pc (threads c' ! t) = Wait_Lock ch False"
      "trace (threads c' ! t) = trace (threads c ! t) @ [EvRecv ch True]"
      "tcond c' = tcond c" "holder c' = holder c"
      using recv(2,7) assms(2) pk by (simp_all add: pc_goto trace_goto Let_def)
    then show ?thesis using recv(1,5) pk by auto
  qed
qed



text \<open>
  Claim C6, as amended. In every execution, each step that moves a goroutine inside its
  call to \<open>Wait\<close> is the next one of this sequence, with this effect on the counter and on
  the lock: increment the waiter counter; capture the stored generation; release the lock;
  block until the captured generation is closed or a send is delivered; re-acquire the
  lock, the counter still counting the waiter; decrement the waiter counter, the lock still
  held; return. The call returns by the last step only, so the re-acquisition and the
  decrement have run, in this order, whenever it returns.
\<close>

theorem Wait_step_order:
  assumes "run ls0 (init l n now) = Some c1" "t < length (threads c1)"
    "pc (threads c1 ! t) = Wait_addWaiter"
    "run ls c1 = Some c" "\<forall>k. Call t k \<notin> set ls"
    "step lab c = Some c'" "crashed c' = None" "threads c' ! t \<noteq> threads c ! t"
    "\<forall>k. lab \<noteq> Call t k"
  shows
    "(pc (threads c ! t) = Wait_addWaiter \<and> lab = Run t \<and>
        pc (threads c' ! t) = Wait_capture \<and>
        hasWaiters (tcond c') = hasWaiters (tcond c) + 1 \<and> holder c' = holder c \<and>
        trace (threads c' ! t) = trace (threads c ! t) @ [EvAddWaiter]) \<or>
     (pc (threads c ! t) = Wait_capture \<and> lab = Run t \<and>
        pc (threads c' ! t) = Wait_Unlock (signal (tcond c)) \<and>
        tcond c' = tcond c \<and> holder c' = holder c \<and>
        trace (threads c' ! t) = trace (threads c ! t) @ [EvCapture (signal (tcond c))]) \<or>
     (\<exists>ch. pc (threads c ! t) = Wait_Unlock ch \<and> lab = Run t \<and>
        pc (threads c' ! t) = Wait_recv ch \<and>
        tcond c' = tcond c \<and> holder c \<noteq> None \<and> holder c' = None \<and>
        trace (threads c' ! t) = trace (threads c ! t) @ [EvUnlock]) \<or>
     (\<exists>ch. pc (threads c ! t) = Wait_recv ch \<and> lab = Run t \<and> ch \<notin> closed (heap c) \<and>
        pc (threads c' ! t) = Wait_parked ch \<and>
        tcond c' = tcond c \<and> holder c' = holder c \<and>
        trace (threads c' ! t) = trace (threads c ! t)) \<or>
     (\<exists>ch. (pc (threads c ! t) = Wait_recv ch \<or> pc (threads c ! t) = Wait_parked ch) \<and>
        lab = Run t \<and> ch \<in> closed (heap c) \<and>
        pc (threads c' ! t) = Wait_Lock ch True \<and>
        tcond c' = tcond c \<and> holder c' = holder c \<and>
        trace (threads c' ! t) = trace (threads c ! t) @ [EvRecv ch False]) \<or>
     (\<exists>ch u. pc (threads c ! t) = Wait_parked ch \<and> lab = Send u t \<and>
        ch \<notin> closed (heap c) \<and>
        pc (threads c' ! t) = Wait_Lock ch False \<and>
        tcond c' = tcond c \<and> holder c' = holder c \<and>
        trace (threads c' ! t) = trace (threads c ! t) @ [EvRecv ch True]) \<or>
     (\<exists>ch r. pc (threads c ! t) = Wait_Lock ch r \<and> lab = Run t \<and>
        pc (threads c' ! t) = Wait_removeWaiter ch r \<and>
        tcond c' = tcond c \<and> holder c = None \<and> holder c' = Some t \<and>
        trace (threads c' ! t) = trace (threads c ! t) @ [EvLock]) \<or>
     (\<exists>ch r. pc (threads c ! t) = Wait_removeWaiter ch r \<and> lab = Run t \<and>
        pc (threads c' ! t) = Idle \<and>
        hasWaiters (tcond c') = hasWaiters (tcond c) - 1 \<and> holder c' = holder c \<and>
        trace (threads c' ! t) =
          [EvCall CWait, EvAddWaiter, EvCapture ch, EvUnlock, EvRecv ch (\<not> r), EvLock,
           EvRemoveWaiter, EvReturn (RBool r)])"
proof -
  have tr1: "traces_ok c1" using traces_run [OF assms(1) traces_init] .
  have tr: "traces_ok c" using traces_run [OF assms(4) tr1] .
  have len: "t < length (threads c)" using run_length [OF assms(4)] assms(2) by simp
  have nc: "crashed c = None" using assms(6) by (rule step_not_crashed)
  have seg: "Wait_seg (pc (threads c ! t)) (\<exists>u. Send u t \<in> set ls) (closed (heap c))
      (trace (threads c ! t))"
    using Wait_segment [OF tr1 assms(2,3) assms(4,5) nc] .
  have nl: "\<And>k. lab \<noteq> Call t k" using assms(9) by simp
  show ?thesis using Wait_own_steps [OF tr len seg assms(6,7,8) nl] .
qed

theorem Wait_step_order_witness:
  "\<exists>c1 c c' c''. run sched_enter_Wait (init 0 2 0) = Some c1 \<and>
      pc (threads c1 ! 0) = Wait_addWaiter \<and>
      run sched_Wait_to_receive c1 = Some c \<and> pc (threads c ! 0) = Wait_Lock 0 True \<and>
      step (Run 0) c = Some c' \<and> crashed c' = None \<and>
      pc (threads c' ! 0) = Wait_removeWaiter 0 True \<and>
      holder c = None \<and> holder c' = Some 0 \<and> tcond c' = tcond c \<and>
      hasWaiters (tcond c') = 1 \<and>
      step (Run 0) c' = Some c'' \<and> crashed c'' = None \<and> pc (threads c'' ! 0) = Idle \<and>
      holder c'' = Some 0 \<and> hasWaiters (tcond c'') = 0 \<and>
      trace (threads c'' ! 0) =
        [EvCall CWait, EvAddWaiter, EvCapture 0, EvUnlock, EvRecv 0 False, EvLock,
         EvRemoveWaiter, EvReturn (RBool True)]"
proof -
  have "\<exists>c1 c c' c''. run sched_enter_Wait (init 0 2 0) = Some c1 \<and>
      0 < length (threads c1) \<and> pc (threads c1 ! 0) = Wait_addWaiter \<and>
      run sched_Wait_to_receive c1 = Some c \<and> pc (threads c ! 0) = Wait_Lock 0 True \<and>
      step (Run 0) c = Some c' \<and> crashed c' = None \<and>
      threads c' ! 0 \<noteq> threads c ! 0 \<and> hasWaiters (tcond c') = 1 \<and>
      step (Run 0) c' = Some c'' \<and> crashed c'' = None \<and>
      threads c'' ! 0 \<noteq> threads c' ! 0"
    by (simp add: sched_enter_Wait_def sched_Wait_to_receive_def exec_simps)
  then obtain c1 c c' c'' where c1: "run sched_enter_Wait (init 0 2 0) = Some c1"
    "0 < length (threads c1)" "pc (threads c1 ! 0) = Wait_addWaiter"
    and c: "run sched_Wait_to_receive c1 = Some c" and p: "pc (threads c ! 0) = Wait_Lock 0 True"
    and s1: "step (Run 0) c = Some c'" "crashed c' = None" "threads c' ! 0 \<noteq> threads c ! 0"
    and h1: "hasWaiters (tcond c') = 1"
    and s2: "step (Run 0) c' = Some c''" "crashed c'' = None" "threads c'' ! 0 \<noteq> threads c' ! 0"
    by blast
  have n1: "\<forall>k. Call 0 k \<notin> set sched_Wait_to_receive" by (simp add: sched_Wait_to_receive_def)
  have nl: "\<forall>k. Run 0 \<noteq> Call 0 k" by simp
  from Wait_step_order [OF c1 c n1 s1 nl] p
  have a: "pc (threads c' ! 0) = Wait_removeWaiter 0 True" "tcond c' = tcond c"
    "holder c = None" "holder c' = Some 0"
    by auto
  have c': "run (sched_Wait_to_receive @ [Run 0]) c1 = Some c'"
    using c s1(1) by (simp add: run_append)
  have n2: "\<forall>k. Call 0 k \<notin> set (sched_Wait_to_receive @ [Run 0])"
    by (simp add: sched_Wait_to_receive_def)
  from Wait_step_order [OF c1 c' n2 s2 nl] a(1)
  have b: "pc (threads c'' ! 0) = Idle" "hasWaiters (tcond c'') = hasWaiters (tcond c') - 1"
    "holder c'' = holder c'"
    "trace (threads c'' ! 0) =
        [EvCall CWait, EvAddWaiter, EvCapture 0, EvUnlock, EvRecv 0 False, EvLock,
         EvRemoveWaiter, EvReturn (RBool True)]"
    by auto
  from b(2) h1 have "hasWaiters (tcond c'') = 0" by simp
  then show ?thesis using c1 c p s1 s2 h1 a b by (metis (no_types, lifting))
qed


text \<open>
  Claim C6 as stated has the decrement before the re-acquisition. In the execution below
  goroutine 0 has re-acquired the lock while the counter still is 1, and the counter drops
  to 0 one step later with the lock held: the deferred calls run last-deferred first.
\<close>

theorem Wait_decrement_after_lock_counterexample:
  "pc (threads (the (run (sched_enter_Wait @ sched_Wait_to_receive @ [Run 0]) (init 0 2 0))) ! 0) =
     Wait_removeWaiter 0 True \<and>
   holder (the (run (sched_enter_Wait @ sched_Wait_to_receive @ [Run 0]) (init 0 2 0))) = Some 0 \<and>
   hasWaiters (tcond (the (run (sched_enter_Wait @ sched_Wait_to_receive @ [Run 0]) (init 0 2 0)))) = 1 \<and>
   holder (the (run (sched_enter_Wait @ sched_Wait_to_receive @ [Run 0, Run 0]) (init 0 2 0))) = Some 0 \<and>
   hasWaiters (tcond (the (run (sched_enter_Wait @ sched_Wait_to_receive @ [Run 0, Run 0]) (init 0 2 0)))) = 0 \<and>
   trace (threads (the (run (sched_enter_Wait @ sched_Wait_to_receive @ [Run 0, Run 0]) (init 0 2 0))) ! 0) =
     [EvCall CWait, EvAddWaiter, EvCapture 0, EvUnlock, EvRecv 0 False, EvLock,
      EvRemoveWaiter, EvReturn (RBool True)]"
  by (simp add: sched_enter_Wait_def sched_Wait_to_receive_def exec_simps)

section \<open>The claims about Signal\<close>

lemma Signal_enter:
  assumes "step (Call t CSignal) c0 = Some c1"
  shows "t < length (threads c0) \<and> pc (threads c0 ! t) = Idle \<and> crashed c0 = None \<and>
         c1 = enter t Signal_load [EvCall CSignal] c0"
  using assms by (auto simp: step_def split: if_splits)

lemma Signal_load_step:
  assumes "step lab c1 = Some c2" "t < length (threads c1)" "pc (threads c1 ! t) = Signal_load"
    "lab = Run t \<or> (\<exists>u. lab = Send t u)"
  shows "lab = Run t \<and> c2 = goto t (Signal_select (signal (tcond c1))) [EvCapture (signal (tcond c1))] c1"
  using assms by (auto simp: step_def Let_def split: if_splits)

lemma Signal_select_step:
  assumes "step lab c2 = Some c3" "t < length (threads c2)" "pc (threads c2 ! t) = Signal_select s"
    "lab = Run t \<or> (\<exists>u. lab = Send t u)"
  shows "(s \<in> closed (heap c2) \<and> c3 = die SendOnClosedChannel c2) \<or>
         (s \<notin> closed (heap c2) \<and> lab = Run t \<and> \<not> has_receiver s c2 \<and>
            c3 = goto t Idle [EvDefault s, EvReturn RUnit] c2) \<or>
         (\<exists>u. s \<notin> closed (heap c2) \<and> lab = Send t u \<and> u < length (threads c2) \<and> u \<noteq> t \<and>
            parked_on s (pc (threads c2 ! u)) \<and>
            c3 = goto t Idle [EvSend s u, EvReturn RUnit] (wake u (pc (threads c2 ! u)) c2))"
  using assms by (auto simp: step_def split: if_splits)

lemma Signal_done:
  assumes "step lab c3 = Some c4" "crashed c3 \<noteq> None \<or> pc (threads c3 ! t) = Idle"
    "lab = Run t \<or> (\<exists>u. lab = Send t u)"
  shows False
  using assms by (auto simp: step_def split: if_splits)

lemma wake_receiver:
  assumes "u < length (threads c)" "parked_on s (pc (threads c ! u))"
  shows "trace (threads (wake u (pc (threads c ! u)) c) ! u) = trace (threads c ! u) @ [EvRecv s True]"
    and "pc (threads (wake u (pc (threads c ! u)) c) ! u) \<noteq> pc (threads c ! u)"
  using assms by (cases "pc (threads c ! u)"; simp add: Let_def trace_goto pc_goto)+



text \<open>
  Claim C10. From any state, run a call of \<open>Signal\<close> by goroutine \<open>t\<close>, as far as it gets,
  with no other goroutine stepping in between. The \<open>TimeoutCond\<close> is unchanged in every
  field (waiter counter, locker reference, stored generation), and so are the channels,
  the lock and the clock. Another goroutine has changed only if the send was delivered to
  it: it was parked on the stored generation, which is open, its receive has completed
  with \<open>ok = true\<close>, and it is the only one. The one other outcome is the panic of a send on
  a closed generation, which changes no field either.
\<close>

theorem Signal_changes_no_field:
  assumes "run (Call t CSignal # ls) c0 = Some c"
    "\<forall>lab \<in> set ls. lab = Run t \<or> (\<exists>u. lab = Send t u)"
  shows "tcond c = tcond c0 \<and> heap c = heap c0 \<and> holder c = holder c0 \<and> clock c = clock c0 \<and>
         length (threads c) = length (threads c0) \<and>
         (crashed c = None \<or>
          crashed c = Some SendOnClosedChannel \<and> signal (tcond c0) \<in> closed (heap c0)) \<and>
         (\<forall>v<length (threads c0). v \<noteq> t \<and> threads c ! v \<noteq> threads c0 ! v \<longrightarrow>
            Send t v \<in> set ls \<and> parked_on (signal (tcond c0)) (pc (threads c0 ! v)) \<and>
            signal (tcond c0) \<notin> closed (heap c0) \<and>
            trace (threads c ! v) = trace (threads c0 ! v) @ [EvRecv (signal (tcond c0)) True] \<and>
            (\<forall>w<length (threads c0). w \<noteq> t \<and> w \<noteq> v \<longrightarrow> threads c ! w = threads c0 ! w))"
proof -
  from assms(1) obtain c1 where s1: "step (Call t CSignal) c0 = Some c1" and r1: "run ls c1 = Some c"
    by (auto split: option.splits)
  from Signal_enter [OF s1] have t: "t < length (threads c0)" and nc0: "crashed c0 = None"
    and c1: "c1 = enter t Signal_load [EvCall CSignal] c0" by simp_all
  have o1: "\<And>v. v < length (threads c0) \<Longrightarrow> v \<noteq> t \<Longrightarrow> threads c1 ! v = threads c0 ! v"
    by (simp add: c1 nth_threads_enter)
  show ?thesis
  proof (cases ls)
    case Nil
    then have "c = c1" using r1 by simp
    then show ?thesis using o1 nc0 by (auto simp: c1)
  next
    case (Cons lab ls1)
    from r1 Cons obtain c2 where s2: "step lab c1 = Some c2" and r2: "run ls1 c2 = Some c"
      by (auto split: option.splits)
    have l1: "lab = Run t \<or> (\<exists>u. lab = Send t u)" using assms(2) Cons by simp
    have t1: "t < length (threads c1)" "pc (threads c1 ! t) = Signal_load"
      using t by (simp_all add: c1 pc_enter)
    from Signal_load_step [OF s2 t1 l1]
    have c2: "c2 = goto t (Signal_select (signal (tcond c0))) [EvCapture (signal (tcond c0))] c1"
      by (simp add: c1)
    have o2: "\<And>v. v < length (threads c0) \<Longrightarrow> v \<noteq> t \<Longrightarrow> threads c2 ! v = threads c0 ! v"
      using o1 by (simp add: c2 c1 nth_threads_goto)
    have f2: "tcond c2 = tcond c0" "heap c2 = heap c0" "holder c2 = holder c0"
      "clock c2 = clock c0" "length (threads c2) = length (threads c0)" "crashed c2 = None"
      using nc0 by (simp_all add: c2 c1)
    show ?thesis
    proof (cases ls1)
      case Nil
      then have "c = c2" using r2 by simp
      then show ?thesis using o2 f2 by auto
    next
      case (Cons lab2 ls2)
      from r2 Cons obtain c3 where s3: "step lab2 c2 = Some c3" and r3: "run ls2 c3 = Some c"
        by (auto split: option.splits)
      have l2: "lab2 = Run t \<or> (\<exists>u. lab2 = Send t u)" using assms(2) \<open>ls = lab # ls1\<close> Cons by simp
      have t2: "t < length (threads c2)" "pc (threads c2 ! t) = Signal_select (signal (tcond c0))"
        using t by (simp_all add: c2 c1 pc_goto)
      have fin: "crashed c3 \<noteq> None \<or> pc (threads c3 ! t) = Idle \<Longrightarrow> c = c3"
      proof (cases ls2)
        case Nil
        then show ?thesis using r3 by simp
      next
        case (Cons lab3 ls3)
        assume d: "crashed c3 \<noteq> None \<or> pc (threads c3 ! t) = Idle"
        from r3 Cons obtain c4 where s4: "step lab3 c3 = Some c4" by (auto split: option.splits)
        have "lab3 = Run t \<or> (\<exists>u. lab3 = Send t u)"
          using assms(2) \<open>ls = lab # ls1\<close> \<open>ls1 = lab2 # ls2\<close> Cons by simp
        from Signal_done [OF s4 d this] show ?thesis ..
      qed
      from Signal_select_step [OF s3 t2 l2] consider
          (panic) "signal (tcond c0) \<in> closed (heap c2)" "c3 = die SendOnClosedChannel c2"
        | (dflt) "lab2 = Run t" "c3 = goto t Idle [EvDefault (signal (tcond c0)), EvReturn RUnit] c2"
        | (send) u where "signal (tcond c0) \<notin> closed (heap c2)" "lab2 = Send t u"
            "u < length (threads c2)" "u \<noteq> t" "parked_on (signal (tcond c0)) (pc (threads c2 ! u))"
            "c3 = goto t Idle [EvSend (signal (tcond c0)) u, EvReturn RUnit]
                    (wake u (pc (threads c2 ! u)) c2)"
        by blast
      then show ?thesis
      proof cases
        case panic
        then have "c = die SendOnClosedChannel c2" using fin by simp
        then show ?thesis using o2 f2 panic(1) by auto
      next
        case dflt
        then have c: "c = goto t Idle [EvDefault (signal (tcond c0)), EvReturn RUnit] c2"
          using fin t2(1) by (simp add: pc_goto)
        have "\<And>v. v < length (threads c0) \<Longrightarrow> v \<noteq> t \<Longrightarrow> threads c ! v = threads c0 ! v"
          using o2 f2(5) by (simp add: c nth_threads_goto)
        then show ?thesis using f2 by (auto simp: c)
      next
        case send
        have u0: "u < length (threads c0)" using send(3) f2(5) by simp
        have pu: "threads c2 ! u = threads c0 ! u" using o2 [OF u0 send(4)] .
        have c: "c = goto t Idle [EvSend (signal (tcond c0)) u, EvReturn RUnit]
                    (wake u (pc (threads c2 ! u)) c2)"
          using fin send(6) t2(1) by (simp add: pc_goto)
        have ow: "threads c ! w = threads c0 ! w"
          if "w < length (threads c0)" "w \<noteq> t" "w \<noteq> u" for w
          using that o2 f2(5) by (simp add: c nth_threads_goto pc_wake_other)
        have tu: "trace (threads c ! u) =
            trace (threads c0 ! u) @ [EvRecv (signal (tcond c0)) True]"
          using wake_receiver(1) [OF send(3,5)] send(3,4) pu by (simp add: c trace_goto)
        have su: "Send t u \<in> set ls"
          using \<open>ls = lab # ls1\<close> \<open>ls1 = lab2 # ls2\<close> send(2) by simp
        have main: "Send t v \<in> set ls \<and> parked_on (signal (tcond c0)) (pc (threads c0 ! v)) \<and>
            signal (tcond c0) \<notin> closed (heap c0) \<and>
            trace (threads c ! v) = trace (threads c0 ! v) @ [EvRecv (signal (tcond c0)) True] \<and>
            (\<forall>w<length (threads c0). w \<noteq> t \<and> w \<noteq> v \<longrightarrow> threads c ! w = threads c0 ! w)"
          if "v < length (threads c0)" "v \<noteq> t" "threads c ! v \<noteq> threads c0 ! v" for v
        proof -
          have "v = u" using ow that by blast
          then show ?thesis using su send(1,5) pu tu ow f2(2) by simp
        qed
        have "tcond c = tcond c0 \<and> heap c = heap c0 \<and> holder c = holder c0 \<and>
          clock c = clock c0 \<and> length (threads c) = length (threads c0) \<and> crashed c = None"
          using f2 by (simp add: c)
        then show ?thesis using main by blast
      qed
    qed
  qed
qed


theorem Signal_changes_no_field_witness:
  "(\<exists>c0 c. run sched_park_then_lock (init 0 2 0) = Some c0 \<and>
      run [Call 1 CSignal, Run 1, Send 1 0] c0 = Some c \<and> pc (threads c ! 1) = Idle \<and>
      tcond c = tcond c0 \<and> heap c = heap c0 \<and> holder c = holder c0 \<and> clock c = clock c0 \<and>
      crashed c = None \<and> threads c ! 0 \<noteq> threads c0 ! 0 \<and>
      pc (threads c0 ! 0) = Wait_parked 0 \<and> pc (threads c ! 0) = Wait_Lock 0 False \<and>
      trace (threads c ! 0) = trace (threads c0 ! 0) @ [EvRecv 0 True]) \<and>
   (\<exists>c0 c. run [Call 0 CLock] (init 0 2 0) = Some c0 \<and>
      run [Call 0 CSignal, Run 0, Run 0] c0 = Some c \<and> pc (threads c ! 0) = Idle \<and>
      tcond c = tcond c0 \<and> heap c = heap c0 \<and> holder c = holder c0 \<and> clock c = clock c0 \<and>
      crashed c = None \<and> threads c ! 1 = threads c0 ! 1)"
proof -
  have "\<exists>c0 c. run sched_park_then_lock (init 0 2 0) = Some c0 \<and>
      run (Call 1 CSignal # [Run 1, Send 1 0]) c0 = Some c \<and> pc (threads c ! 1) = Idle \<and>
      length (threads c0) = 2 \<and> signal (tcond c0) = 0 \<and>
      crashed c = None \<and> threads c ! 0 \<noteq> threads c0 ! 0 \<and>
      pc (threads c0 ! 0) = Wait_parked 0 \<and> pc (threads c ! 0) = Wait_Lock 0 False"
    by (simp add: sched_park_then_lock_def exec_simps)
  then obtain c0 c where a: "run sched_park_then_lock (init 0 2 0) = Some c0"
    "run (Call 1 CSignal # [Run 1, Send 1 0]) c0 = Some c" "pc (threads c ! 1) = Idle"
    "length (threads c0) = 2" "signal (tcond c0) = 0"
    "crashed c = None" "threads c ! 0 \<noteq> threads c0 ! 0"
    "pc (threads c0 ! 0) = Wait_parked 0" "pc (threads c ! 0) = Wait_Lock 0 False"
    by blast
  have la: "\<forall>lab \<in> set [Run 1, Send 1 0]. lab = Run (1::nat) \<or> (\<exists>u. lab = Send 1 u)" by simp
  from Signal_changes_no_field [OF a(2) la] a(4,5,7)
  have fa: "tcond c = tcond c0" "heap c = heap c0" "holder c = holder c0" "clock c = clock c0"
    "trace (threads c ! 0) = trace (threads c0 ! 0) @ [EvRecv 0 True]"
    by auto
  have "\<exists>d0 d. run [Call 0 CLock] (init 0 2 0) = Some d0 \<and>
      run (Call 0 CSignal # [Run 0, Run 0]) d0 = Some d \<and> pc (threads d ! 0) = Idle \<and>
      length (threads d0) = 2 \<and> crashed d = None"
    by (simp add: exec_simps numeral_2_eq_2)
  then obtain d0 d where b: "run [Call 0 CLock] (init 0 2 0) = Some d0"
    "run (Call 0 CSignal # [Run 0, Run 0]) d0 = Some d" "pc (threads d ! 0) = Idle"
    "length (threads d0) = 2" "crashed d = None"
    by blast
  have lb: "\<forall>lab \<in> set [Run 0, Run 0]. lab = Run (0::nat) \<or> (\<exists>u. lab = Send 0 u)" by simp
  have ns: "Send 0 1 \<notin> set [Run 0, Run 0]" by simp
  from Signal_changes_no_field [OF b(2) lb]
  have fb: "tcond d = tcond d0" "heap d = heap d0" "holder d = holder d0" "clock d = clock d0"
    and all: "\<forall>v<length (threads d0). v \<noteq> 0 \<and> threads d ! v \<noteq> threads d0 ! v \<longrightarrow>
       Send 0 v \<in> set [Run 0, Run 0]"
    by blast+
  have "(1::nat) < length (threads d0)" using b(4) by simp
  with all have "(1::nat) \<noteq> 0 \<and> threads d ! 1 \<noteq> threads d0 ! 1 \<longrightarrow>
      Send 0 1 \<in> set [Run 0, Run 0]" by blast
  then have f1: "threads d ! 1 = threads d0 ! 1" using ns by auto
  show ?thesis using a fa b fb f1 by auto
qed

lemma replicate_two: "replicate 2 x = [x, x]"
  by (simp add: numeral_2_eq_2)

lemma good_reach: "drun ls (init l n now) = Some c \<Longrightarrow> good c"
  using good_drun [OF _ good_init] by blast

lemma holder_idle_open:
  assumes "good c" "t < length (threads c)" "pc (threads c ! t) = Idle" "holder c = Some t"
  shows "signal (tcond c) \<notin> closed (heap c)"
    and "\<And>v. v < length (threads c) \<Longrightarrow> \<not> in_lock (pc (threads c ! v))"
proof -
  have li: "lock_inv c" and gi: "gen_inv c" using assms(1) by (simp_all add: good_def)
  show nl: "\<not> in_lock (pc (threads c ! v))" if "v < length (threads c)" for v
  proof (cases "v = t")
    case True
    then show ?thesis using assms(3) by simp
  next
    case False
    then show ?thesis using lock_others [OF li assms(4) that] by simp
  qed
  have "\<not> (\<exists>v<length (threads c). pc (threads c ! v) = Interrupt_make)"
  proof
    assume "\<exists>v<length (threads c). pc (threads c ! v) = Interrupt_make"
    then obtain v where "v < length (threads c)" "pc (threads c ! v) = Interrupt_make" by blast
    then show False using nl [of v] by simp
  qed
  then show "signal (tcond c) \<notin> closed (heap c)" using gi by (simp add: gen_inv_def)
qed

lemma has_receiver_upd:
  assumes "\<not> has_receiver ch c" "\<not> parked_on ch p"
  shows "\<not> has_receiver ch (c\<lparr>threads := (threads c)[t := \<lparr>pc = p, trace = es\<rparr>]\<rparr>)"
proof -
  have "set ((threads c)[t := \<lparr>pc = p, trace = es\<rparr>]) \<subseteq>
        insert \<lparr>pc = p, trace = es\<rparr> (set (threads c))"
    by (rule set_update_subset_insert)
  then show ?thesis using assms by (auto simp: has_receiver_def list_ex_iff)
qed

lemma Signal_dropped:
  assumes "t < length (threads c0)" "pc (threads c0 ! t) = Idle" "holder c0 = Some t"
    "crashed c0 = None" "\<not> has_receiver (signal (tcond c0)) c0"
    "signal (tcond c0) \<notin> closed (heap c0)"
  shows "drun [Call t CSignal, Run t, Run t] c0 =
     Some (c0\<lparr>threads := (threads c0)[t := \<lparr>pc = Idle, trace =
        [EvCall CSignal, EvCapture (signal (tcond c0)), EvDefault (signal (tcond c0)),
         EvReturn RUnit]\<rparr>]\<rparr>)"
proof -
  let ?s = "signal (tcond c0)"
  let ?c1 = "c0\<lparr>threads := (threads c0)[t := \<lparr>pc = Signal_load, trace = [EvCall CSignal]\<rparr>]\<rparr>"
  let ?c2 = "c0\<lparr>threads := (threads c0)[t := \<lparr>pc = Signal_select ?s,
                trace = [EvCall CSignal, EvCapture ?s]\<rparr>]\<rparr>"
  have s1: "step (Call t CSignal) c0 = Some ?c1"
    using assms(1,2,4) by (simp add: step_def enter_def)
  have s2: "step (Run t) ?c1 = Some ?c2"
    using assms(1,4) by (simp add: step_def goto_def Let_def)
  have nr: "\<not> has_receiver ?s ?c2"
    using has_receiver_upd [OF assms(5), of "Signal_select ?s" t "[EvCall CSignal, EvCapture ?s]"]
    by simp
  have s3: "step (Run t) ?c2 = Some (c0\<lparr>threads := (threads c0)[t := \<lparr>pc = Idle, trace =
        [EvCall CSignal, EvCapture ?s, EvDefault ?s, EvReturn RUnit]\<rparr>]\<rparr>)"
    using assms(1,4,6) nr by (simp add: step_def goto_def)
  show ?thesis using s1 s2 s3 assms(3) by simp
qed


lemma Wait_after_parks:
  assumes "t < length (threads c)" "pc (threads c ! t) = Idle" "holder c = Some t"
    "crashed c = None" "signal (tcond c) \<notin> closed (heap c)"
    "hasWaiters (tcond c) \<noteq> MaxUint64"
    "\<And>v. v < length (threads c) \<Longrightarrow> \<not> in_lock (pc (threads c ! v))"
  shows "\<exists>c'. drun [Call t CWait, Run t, Run t, Run t, Run t] c = Some c' \<and>
           crashed c' = None \<and> pc (threads c' ! t) = Wait_parked (signal (tcond c)) \<and>
           signal (tcond c') = signal (tcond c) \<and> heap c' = heap c \<and>
           step (Run t) c' = None \<and> (\<forall>u. step (Send u t) c' = None)"
proof -
  let ?s = "signal (tcond c)"
  let ?k = "(tcond c)\<lparr>hasWaiters := hasWaiters (tcond c) + 1\<rparr>"
  let ?c1 = "enter t Wait_addWaiter [EvCall CWait] c"
  let ?c2 = "goto t Wait_capture [EvAddWaiter] (?c1\<lparr>tcond := ?k\<rparr>)"
  let ?c3 = "goto t (Wait_Unlock ?s) [EvCapture ?s] ?c2"
  let ?c4 = "goto t (Wait_recv ?s) [EvUnlock] (?c3\<lparr>holder := None\<rparr>)"
  let ?c5 = "goto t (Wait_parked ?s) [] ?c4"
  have s1: "step (Call t CWait) c = Some ?c1" using assms(1,2,4) by (simp add: step_def)
  have s2: "step (Run t) ?c1 = Some ?c2"
    using assms(1,4,6) by (simp add: step_def pc_enter addWaiter_cases)
  have s3: "step (Run t) ?c2 = Some ?c3"
    using assms(1,4) by (simp add: step_def pc_goto Let_def)
  have s4: "step (Run t) ?c3 = Some ?c4"
    using assms(1,3,4) by (simp add: step_def pc_goto)
  have s5: "step (Run t) ?c4 = Some ?c5"
    using assms(1,4,5) by (simp add: step_def pc_goto)
  have d: "drun [Call t CWait, Run t, Run t, Run t, Run t] c = Some ?c5"
    using s1 s2 s3 s4 s5 assms(3) by simp
  have p5: "pc (threads ?c5 ! t) = Wait_parked ?s" using assms(1) by (simp add: pc_goto)
  have b: "step (Run t) ?c5 = None" using assms(1,4,5) p5 by (simp add: step_def)
  have po: "pc (threads ?c5 ! u) = pc (threads c ! u)" if "u < length (threads c)" "u \<noteq> t" for u
    using that by (simp add: pc_goto pc_enter)
  have ns: "step (Send u t) ?c5 = None" for u
  proof (cases "u < length (threads c) \<and> u \<noteq> t")
    case True
    then have "\<not> in_lock (pc (threads ?c5 ! u))" using assms(7) [of u] po by simp
    then have "send_step u t (pc (threads ?c5 ! u)) q ?c5 = None" for q
      by (cases "pc (threads ?c5 ! u)") simp_all
    then show ?thesis by (simp add: step_def)
  next
    case False
    then show ?thesis using p5 assms(1) by (auto simp: step_def)
  qed
  show ?thesis using d p5 b ns assms(4) by (intro exI [of _ ?c5]) simp
qed


text \<open>
  Claim C8. In any execution in which the callers follow the locking protocol, let
  goroutine \<open>t\<close> hold the lock and call \<open>Signal\<close> while no goroutine is parked on the stored
  generation. The call runs to its end without blocking and without panic, and the state
  after it is the state before it: no field, channel or other goroutine has changed, only
  the record of what \<open>t\<close> did. Nothing is left to wake a later waiter: if \<open>t\<close> then calls
  \<open>Wait\<close> (the counter not being at its maximum), it parks on the same open generation, and
  neither its own step nor the delivery of a send is possible there.
\<close>

theorem Signal_without_waiter:
  assumes "drun ls0 (init l n now) = Some c0" "t < length (threads c0)"
    "pc (threads c0 ! t) = Idle" "holder c0 = Some t" "crashed c0 = None"
    "\<not> has_receiver (signal (tcond c0)) c0"
  shows "\<exists>c. drun [Call t CSignal, Run t, Run t] c0 = Some c \<and>
           c = c0\<lparr>threads := (threads c0)[t := \<lparr>pc = Idle, trace =
                 [EvCall CSignal, EvCapture (signal (tcond c0)), EvDefault (signal (tcond c0)),
                  EvReturn RUnit]\<rparr>]\<rparr> \<and>
           (hasWaiters (tcond c0) \<noteq> MaxUint64 \<longrightarrow>
              (\<exists>c'. drun [Call t CWait, Run t, Run t, Run t, Run t] c = Some c' \<and>
                 crashed c' = None \<and>
                 pc (threads c' ! t) = Wait_parked (signal (tcond c0)) \<and>
                 signal (tcond c0) \<notin> closed (heap c') \<and>
                 step (Run t) c' = None \<and> (\<forall>u. step (Send u t) c' = None)))"
proof -
  have g: "good c0" using good_reach [OF assms(1)] .
  have op: "signal (tcond c0) \<notin> closed (heap c0)"
    and nl: "\<And>v. v < length (threads c0) \<Longrightarrow> \<not> in_lock (pc (threads c0 ! v))"
    using holder_idle_open [OF g assms(2,3,4)] by blast+
  let ?c = "c0\<lparr>threads := (threads c0)[t := \<lparr>pc = Idle, trace =
                 [EvCall CSignal, EvCapture (signal (tcond c0)), EvDefault (signal (tcond c0)),
                  EvReturn RUnit]\<rparr>]\<rparr>"
  have d: "drun [Call t CSignal, Run t, Run t] c0 = Some ?c"
    using Signal_dropped [OF assms(2,3,4,5,6) op] .
  have nl': "\<not> in_lock (pc (threads ?c ! v))" if "v < length (threads ?c)" for v
    using that nl [of v] assms(3) by (cases "v = t") (simp_all add: nth_list_update)
  have w: "hasWaiters (tcond c0) \<noteq> MaxUint64 \<longrightarrow>
              (\<exists>c'. drun [Call t CWait, Run t, Run t, Run t, Run t] ?c = Some c' \<and>
                 crashed c' = None \<and>
                 pc (threads c' ! t) = Wait_parked (signal (tcond c0)) \<and>
                 signal (tcond c0) \<notin> closed (heap c') \<and>
                 step (Run t) c' = None \<and> (\<forall>u. step (Send u t) c' = None))"
  proof
    assume m: "hasWaiters (tcond c0) \<noteq> MaxUint64"
    have "\<exists>c'. drun [Call t CWait, Run t, Run t, Run t, Run t] ?c = Some c' \<and>
           crashed c' = None \<and> pc (threads c' ! t) = Wait_parked (signal (tcond ?c)) \<and>
           signal (tcond c') = signal (tcond ?c) \<and> heap c' = heap ?c \<and>
           step (Run t) c' = None \<and> (\<forall>u. step (Send u t) c' = None)"
      using assms(2,4,5) op m nl' by (intro Wait_after_parks) simp_all
    then obtain c' where c': "drun [Call t CWait, Run t, Run t, Run t, Run t] ?c = Some c'"
      "crashed c' = None" "pc (threads c' ! t) = Wait_parked (signal (tcond ?c))"
      "heap c' = heap ?c" "step (Run t) c' = None" "\<forall>u. step (Send u t) c' = None"
      by blast
    have "pc (threads c' ! t) = Wait_parked (signal (tcond c0))" using c'(3) by simp
    moreover have "signal (tcond c0) \<notin> closed (heap c')" using c'(4) op by simp
    ultimately show "\<exists>c'. drun [Call t CWait, Run t, Run t, Run t, Run t] ?c = Some c' \<and>
                 crashed c' = None \<and>
                 pc (threads c' ! t) = Wait_parked (signal (tcond c0)) \<and>
                 signal (tcond c0) \<notin> closed (heap c') \<and>
                 step (Run t) c' = None \<and> (\<forall>u. step (Send u t) c' = None)"
      using c'(1,2,5,6) by blast
  qed
  from d w show ?thesis by blast
qed


theorem Signal_without_waiter_witness:
  "\<exists>c0 c c'. drun [Call 0 CLock] (init 0 2 0) = Some c0 \<and> pc (threads c0 ! 0) = Idle \<and>
      holder c0 = Some 0 \<and> crashed c0 = None \<and> \<not> has_receiver (signal (tcond c0)) c0 \<and>
      drun [Call 0 CSignal, Run 0, Run 0] c0 = Some c \<and>
      tcond c = tcond c0 \<and> heap c = heap c0 \<and> holder c = holder c0 \<and> clock c = clock c0 \<and>
      crashed c = None \<and> pc (threads c ! 0) = Idle \<and> threads c ! 1 = threads c0 ! 1 \<and>
      drun [Call 0 CWait, Run 0, Run 0, Run 0, Run 0] c = Some c' \<and>
      pc (threads c' ! 0) = Wait_parked 0 \<and> step (Run 0) c' = None \<and>
      step (Send 1 0) c' = None"
proof -
  have "\<exists>c0. drun [Call 0 CLock] (init 0 2 0) = Some c0 \<and> 0 < length (threads c0) \<and>
      pc (threads c0 ! 0) = Idle \<and> holder c0 = Some 0 \<and> crashed c0 = None \<and>
      \<not> has_receiver (signal (tcond c0)) c0 \<and> hasWaiters (tcond c0) \<noteq> MaxUint64 \<and>
      signal (tcond c0) = 0"
    by (simp add: exec_simps replicate_two)
  then obtain c0 where c0: "drun [Call 0 CLock] (init 0 2 0) = Some c0"
    "0 < length (threads c0)" "pc (threads c0 ! 0) = Idle" "holder c0 = Some 0"
    "crashed c0 = None" "\<not> has_receiver (signal (tcond c0)) c0"
    and m: "hasWaiters (tcond c0) \<noteq> MaxUint64" and s0: "signal (tcond c0) = 0"
    by blast
  from Signal_without_waiter [OF c0] m s0 obtain c c' where
    c: "drun [Call 0 CSignal, Run 0, Run 0] c0 = Some c"
      "c = c0\<lparr>threads := (threads c0)[0 := \<lparr>pc = Idle, trace =
                 [EvCall CSignal, EvCapture 0, EvDefault 0, EvReturn RUnit]\<rparr>]\<rparr>"
    and c': "drun [Call 0 CWait, Run 0, Run 0, Run 0, Run 0] c = Some c'"
      "pc (threads c' ! 0) = Wait_parked 0" "step (Run 0) c' = None"
      "\<forall>u. step (Send u 0) c' = None"
    by auto
  have f: "tcond c = tcond c0" "heap c = heap c0" "holder c = holder c0" "clock c = clock c0"
    "crashed c = None" "pc (threads c ! 0) = Idle" "threads c ! 1 = threads c0 ! 1"
    using c0(2,5) by (simp_all add: c(2))
  show ?thesis using c0 c(1) f c' by blast
qed

end
